theory Spec2Isabelle
  imports Main
begin

section \<open>Python strings\<close>

text \<open>
  The parser \<^verbatim>\<open>parse_markdown_table\<close> of \<^verbatim>\<open>pipeline_profile_app_5j.py\<close> works on
  Python \<^verbatim>\<open>str\<close> values. A \<^typ>\<open>char\<close> stands for one code point below 256
  (U+0000 to U+00FF), a \<^typ>\<open>string\<close> for a \<^verbatim>\<open>str\<close> made of such code points.
  The character classes below are Python's own, cut down to that range.
\<close>

abbreviation LF :: char where "LF \<equiv> CHR 0x0A"
abbreviation CR :: char where "CR \<equiv> CHR 0x0D"

text \<open>\<^verbatim>\<open>s.startswith(p)\<close> and \<^verbatim>\<open>sub in s\<close>.\<close>

fun startswith :: "string \<Rightarrow> string \<Rightarrow> bool" where
  "startswith s [] = True"
| "startswith [] (p # ps) = False"
| "startswith (c # cs) (p # ps) = (c = p \<and> startswith cs ps)"

fun py_in :: "string \<Rightarrow> string \<Rightarrow> bool" where
  "py_in sub [] = (sub = [])"
| "py_in sub (c # cs) = (startswith (c # cs) sub \<or> py_in sub cs)"

text \<open>
  \<^verbatim>\<open>str.isspace\<close> on one code point: the characters \<^verbatim>\<open>str.strip()\<close> removes.
  Below 256 these are U+0009 to U+000D, U+001C to U+0020, U+0085 and U+00A0.
\<close>

definition isspace :: "char \<Rightarrow> bool" where
  "isspace c = (c \<in> set [CHR 0x09, CHR 0x0A, CHR 0x0B, CHR 0x0C, CHR 0x0D,
                          CHR 0x1C, CHR 0x1D, CHR 0x1E, CHR 0x1F, CHR 0x20,
                          CHR 0x85, CHR 0xA0])"

definition lstrip :: "string \<Rightarrow> string" where
  "lstrip s = dropWhile isspace s"

definition rstrip :: "string \<Rightarrow> string" where
  "rstrip s = rev (dropWhile isspace (rev s))"

definition strip :: "string \<Rightarrow> string" where
  "strip s = rstrip (lstrip s)"

text \<open>
  \<^verbatim>\<open>s.split(d)\<close> for a one-character delimiter: every occurrence of the delimiter
  ends a part, and empty parts are kept. The part read so far is \<open>cur\<close>.
\<close>

fun split_acc :: "char \<Rightarrow> string \<Rightarrow> string \<Rightarrow> string list" where
  "split_acc d cur [] = [cur]"
| "split_acc d cur (c # cs) =
     (if c = d then cur # split_acc d [] cs else split_acc d (cur @ [c]) cs)"

definition split :: "char \<Rightarrow> string \<Rightarrow> string list" where
  "split d s = split_acc d [] s"

text \<open>
  \<^verbatim>\<open>s.splitlines()\<close>: a line ends at a line boundary, \<^verbatim>\<open>\r\n\<close> counts as one boundary,
  the boundaries are not part of the lines, and no empty line is reported after the
  last boundary. Below 256 the boundaries are U+000A to U+000D, U+001C to U+001E and
  U+0085.
\<close>

definition is_linebreak :: "char \<Rightarrow> bool" where
  "is_linebreak c = (c \<in> set [CHR 0x0A, CHR 0x0B, CHR 0x0C, CHR 0x0D,
                               CHR 0x1C, CHR 0x1D, CHR 0x1E, CHR 0x85])"

fun splitlines_acc :: "string \<Rightarrow> string \<Rightarrow> string list" where
  "splitlines_acc cur [] = (if cur = [] then [] else [cur])"
| "splitlines_acc cur (c # cs) =
     (if is_linebreak c then
        (case cs of
           d # ds \<Rightarrow> if c = CR \<and> d = LF then cur # splitlines_acc [] ds
                     else cur # splitlines_acc [] cs
         | [] \<Rightarrow> cur # splitlines_acc [] cs)
      else splitlines_acc (cur @ [c]) cs)"

definition splitlines :: "string \<Rightarrow> string list" where
  "splitlines s = splitlines_acc [] s"

text \<open>
  \<^verbatim>\<open>s.splitlines(keepends=True)\<close>: the same lines, each with its line boundary.
\<close>

fun splitlines_keep_acc :: "string \<Rightarrow> string \<Rightarrow> string list" where
  "splitlines_keep_acc cur [] = (if cur = [] then [] else [cur])"
| "splitlines_keep_acc cur (c # cs) =
     (if is_linebreak c then
        (case cs of
           d # ds \<Rightarrow> if c = CR \<and> d = LF then (cur @ [c, d]) # splitlines_keep_acc [] ds
                     else (cur @ [c]) # splitlines_keep_acc [] cs
         | [] \<Rightarrow> (cur @ [c]) # splitlines_keep_acc [] cs)
      else splitlines_keep_acc (cur @ [c]) cs)"

definition splitlines_keepends :: "string \<Rightarrow> string list" where
  "splitlines_keepends s = splitlines_keep_acc [] s"

section \<open>Emphasis stripping: the regular expression\<close>

text \<open>
  \<^verbatim>\<open>re.sub(r"\*\*(.*?)\*\*", r"\1", ocr_text)\<close>. After an opening \<^verbatim>\<open>**\<close> the lazy
  group takes the fewest characters that let the closing \<^verbatim>\<open>**\<close> match, and the dot
  matches every character but the line feed. \<open>find_close s\<close> runs the group and the
  closing marker on \<open>s\<close>, the text after an opening marker: it returns the group and
  the text after the match, or \<open>None\<close> when the pattern does not match there.
\<close>

fun find_close :: "string \<Rightarrow> (string \<times> string) option" where
  "find_close [] = None"
| "find_close (c # cs) =
     (if startswith (c # cs) ''**'' then Some ([], drop 2 (c # cs))
      else if c = LF then None
      else (case find_close cs of
              None \<Rightarrow> None
            | Some (inner, rest) \<Rightarrow> Some (c # inner, rest)))"

lemma find_close_length:
  "find_close s = Some (inner, rest) \<Longrightarrow> length inner + length rest + 2 = length s"
proof (induction s arbitrary: inner)
  case Nil
  then show ?case by simp
next
  case (Cons c cs)
  show ?case
  proof (cases "startswith (c # cs) ''**''")
    case True
    then obtain ds where "cs = CHR ''*'' # ds"
      by (cases cs) auto
    with True Cons.prems show ?thesis by auto
  next
    case False
    with Cons.prems obtain inner' where
      "find_close cs = Some (inner', rest)" "inner = c # inner'"
      by (auto split: if_splits option.splits)
    with Cons.IH show ?thesis by fastforce
  qed
qed

text \<open>
  The substitution scans from the left. Where the pattern matches, the match is
  replaced by its group and the scan goes on after the match; elsewhere the character
  is copied and the scan moves one character on.
\<close>

function strip_emphasis :: "string \<Rightarrow> string" where
  "strip_emphasis [] = []"
| "strip_emphasis (c # cs) =
     (if startswith (c # cs) ''**'' then
        (case find_close (drop 2 (c # cs)) of
           Some (inner, rest) \<Rightarrow> inner @ strip_emphasis rest
         | None \<Rightarrow> c # strip_emphasis cs)
      else c # strip_emphasis cs)"
  by pat_completeness auto
termination
proof (relation "measure length")
  show "wf (measure length)" by simp
next
  fix c :: char and cs x2 inner rest
  assume "find_close (drop 2 (c # cs)) = Some x2" "(inner, rest) = x2"
  then have "find_close (drop 2 (c # cs)) = Some (inner, rest)"
    by (simp only:)
  then have "length inner + length rest + 2 = length (drop 2 (c # cs))"
    by (rule find_close_length)
  then show "(rest, c # cs) \<in> measure length" by simp
qed auto

section \<open>Line classification and row tokenization\<close>

text \<open>
  The cells of a data line:
  \<^verbatim>\<open>[cell.strip() for cell in line.split("|") if cell.strip()]\<close>.
\<close>

definition tokenize :: "string \<Rightarrow> string list" where
  "tokenize line = [strip cell. cell \<leftarrow> split (CHR ''|'') line, strip cell \<noteq> []]"

text \<open>The test of the first branch of the loop: a separator line.\<close>

definition is_separator :: "string \<Rightarrow> bool" where
  "is_separator line = (py_in ''|'' line \<and> py_in ''---'' line)"

text \<open>
  The loop over \<^verbatim>\<open>table_lines\<close>. Its state is the pair of \<^verbatim>\<open>table_data\<close> and the flag
  \<^verbatim>\<open>is_table\<close>; \<^verbatim>\<open>continue\<close> goes on with the next line.
\<close>

fun scan_lines :: "string list \<Rightarrow> string list list \<times> bool \<Rightarrow> string list list \<times> bool" where
  "scan_lines [] st = st"
| "scan_lines (line # ls) (table_data, is_table) =
     (if py_in ''|'' line \<and> py_in ''---'' line then scan_lines ls (table_data, True)
      else if py_in ''|'' line then scan_lines ls (table_data @ [tokenize line], is_table)
      else scan_lines ls (table_data, is_table))"

section \<open>The data frame\<close>

text \<open>
  What the parser uses of a pandas \<^verbatim>\<open>DataFrame\<close>: the column labels, the row index
  and the rows of cells. A cell holds a string, a number or the missing marker (\<^verbatim>\<open>None\<close>
  in a column of strings, \<^verbatim>\<open>NaN\<close> in a numeric one). The type \<open>'n\<close> of numbers is left
  open: the parser never computes with them.
\<close>

datatype 'n cell = Str string | Num 'n | Missing

record 'n frame =
  columns :: "string list"
  index :: "nat list"
  rows :: "'n cell list list"

datatype error = ValueError | IndexError | KeyError | TypeError

text \<open>\<^verbatim>\<open>pd.DataFrame()\<close>: no columns and no rows.\<close>

definition empty_frame :: "'n frame" where
  "empty_frame = \<lparr>columns = [], index = [], rows = []\<rparr>"

text \<open>
  \<^verbatim>\<open>pd.DataFrame(data, columns=headers)\<close> for a list of lists of strings. With no
  rows the frame has the given columns. Otherwise the rows are laid out in an array
  as wide as the longest row, shorter rows filled up with \<^verbatim>\<open>None\<close>, and the
  constructor raises \<^verbatim>\<open>ValueError\<close> (\<^verbatim>\<open>n columns passed, passed data had m columns\<close>)
  unless that width is the number of labels. The index is \<^verbatim>\<open>0, 1, ...\<close>.
\<close>

definition width :: "'a list list \<Rightarrow> nat" where
  "width data = foldr (\<lambda>row w. max (length row) w) data 0"

definition DataFrame :: "string list list \<Rightarrow> string list \<Rightarrow> error + 'n frame" where
  "DataFrame data headers =
     (if data = [] then Inr \<lparr>columns = headers, index = [], rows = []\<rparr>
      else if width data \<noteq> length headers then Inl ValueError
      else Inr \<lparr>columns = headers, index = [0..<length data],
                rows = [map Str row @ replicate (width data - length row) Missing.
                        row \<leftarrow> data]\<rparr>)"

text \<open>
  \<^verbatim>\<open>df.iloc[:, 0]\<close>: the cells of the first column; \<^verbatim>\<open>IndexError\<close> (\<^verbatim>\<open>single positional
  indexer is out-of-bounds\<close>) in a frame without columns.
\<close>

definition iloc_col0 :: "'n frame \<Rightarrow> error + 'n cell list" where
  "iloc_col0 df = (if columns df = [] then Inl IndexError else Inr (map hd (rows df)))"

text \<open>
  \<^verbatim>\<open>Series.str.contains(pat, case=False, na=False)\<close> for a pattern without regular
  expression operators: a search for the pattern that ignores case. Two code points
  below 256 are equal up to case when their lower-case forms are equal; the letters
  with a lower-case form are U+0041 to U+005A and U+00C0 to U+00DE without U+00D7.
  A cell that is not a string gives \<^verbatim>\<open>na\<close>, that is \<^verbatim>\<open>False\<close>.
\<close>

definition lower :: "char \<Rightarrow> char" where
  "lower c =
     (let n = (of_char c :: nat)
      in if (65 \<le> n \<and> n \<le> 90) \<or> (192 \<le> n \<and> n \<le> 222 \<and> n \<noteq> 215)
         then char_of (n + 32) else c)"

fun startswith_nocase :: "string \<Rightarrow> string \<Rightarrow> bool" where
  "startswith_nocase s [] = True"
| "startswith_nocase [] (p # ps) = False"
| "startswith_nocase (c # cs) (p # ps) = (lower c = lower p \<and> startswith_nocase cs ps)"

fun search_nocase :: "string \<Rightarrow> string \<Rightarrow> bool" where
  "search_nocase pat [] = (pat = [])"
| "search_nocase pat (c # cs) = (startswith_nocase (c # cs) pat \<or> search_nocase pat cs)"

fun str_contains_nocase :: "string \<Rightarrow> 'n cell \<Rightarrow> bool" where
  "str_contains_nocase pat (Str s) = search_nocase pat s"
| "str_contains_nocase pat (Num x) = False"
| "str_contains_nocase pat Missing = False"

text \<open>
  \<^verbatim>\<open>df.loc[mask]\<close> keeps the rows, with their index entries, at which the mask is
  true; \<^verbatim>\<open>df.reset_index(drop=True)\<close> numbers the rows from 0 again.
\<close>

definition loc :: "'n frame \<Rightarrow> bool list \<Rightarrow> 'n frame" where
  "loc df sel =
     df\<lparr>index := [i. (i, keep) \<leftarrow> zip (index df) sel, keep],
        rows := [row. (row, keep) \<leftarrow> zip (rows df) sel, keep]\<rparr>"

definition reset_index :: "'n frame \<Rightarrow> 'n frame" where
  "reset_index df = df\<lparr>index := [0..<length (rows df)]\<rparr>"

text \<open>
  \<^verbatim>\<open>pd.to_numeric(..., errors="coerce")\<close> on one cell. The empty string and every
  string that is not a numeric literal become the missing marker; a number and the
  missing marker stay as they are. Which strings are numeric literals, and their
  values, is pandas' business: \<open>num\<close> is its literal parser. pandas converts a
  column as a whole, so the machine number that stands for a literal (an integer, or
  a float beside a missing cell) depends on the other cells of the column; \<open>num s\<close>
  is the number the literal denotes, and which cells are numbers and which are
  missing does not depend on the other cells.
\<close>

fun to_numeric :: "(string \<Rightarrow> 'n option) \<Rightarrow> 'n cell \<Rightarrow> 'n cell" where
  "to_numeric num (Str s) =
     (if s = [] then Missing else (case num s of Some x \<Rightarrow> Num x | None \<Rightarrow> Missing))"
| "to_numeric num (Num x) = Num x"
| "to_numeric num Missing = Missing"

text \<open>
  The positions of a label among the columns. \<^verbatim>\<open>df[col]\<close> is a column when the label
  occurs once; it raises \<^verbatim>\<open>KeyError\<close> when the label does not occur, and it is a frame
  of all the columns so labelled when the label occurs more than once, which
  \<^verbatim>\<open>pd.to_numeric\<close> refuses with \<^verbatim>\<open>TypeError\<close>.
\<close>

definition positions :: "string \<Rightarrow> string list \<Rightarrow> nat list" where
  "positions col cols = filter (\<lambda>j. cols ! j = col) [0..<length cols]"

text \<open>
  The loop \<^verbatim>\<open>for col in df.columns[1:]: df[col] = pd.to_numeric(df[col], errors="coerce")\<close>
  over the labels still to do.
\<close>

fun coerce_columns :: "(string \<Rightarrow> 'n option) \<Rightarrow> string list \<Rightarrow> 'n frame \<Rightarrow> error + 'n frame" where
  "coerce_columns num [] df = Inr df"
| "coerce_columns num (col # cols) df =
     (case positions col (columns df) of
        [] \<Rightarrow> Inl KeyError
      | [j] \<Rightarrow> coerce_columns num cols
                 (df\<lparr>rows := [row[j := to_numeric num (row ! j)]. row \<leftarrow> rows df]\<rparr>)
      | _ \<Rightarrow> Inl TypeError)"

section \<open>The parser\<close>

text \<open>
  Lines 76 to 98: the frame built from \<^verbatim>\<open>table_data\<close>. In Python a list times a
  negative number is the empty list, as \<open>replicate\<close> of a truncated difference is.
\<close>

definition pad_row :: "nat \<Rightarrow> string list \<Rightarrow> string list" where
  "pad_row max_columns row = row @ replicate (max_columns - length row) []"

definition build_table :: "(string \<Rightarrow> 'n option) \<Rightarrow> string list list \<Rightarrow> error + 'n frame" where
  "build_table num table_data =
     (if table_data \<noteq> [] then
        (let headers = hd table_data;
             headers = map strip headers;
             data = tl table_data;
             max_columns = length headers;
             data = map (pad_row max_columns) data
         in case DataFrame data headers of
              Inl e \<Rightarrow> Inl e
            | Inr df \<Rightarrow>
                (case iloc_col0 df of
                   Inl e \<Rightarrow> Inl e
                 | Inr col0 \<Rightarrow>
                     (let df = loc df (map (\<lambda>c. \<not> str_contains_nocase ''EXISTING LEVELS'' c) col0);
                          df = reset_index df
                      in coerce_columns num (tl (columns df)) df)))
      else Inr empty_frame)"

text \<open>A data line: a line with a pipe that is not a separator line.\<close>

definition is_data_row :: "string \<Rightarrow> bool" where
  "is_data_row line = (py_in ''|'' line \<and> \<not> is_separator line)"

text \<open>
  A text with every line that contains both a pipe and \<^verbatim>\<open>---\<close> deleted, the line
  boundary going with its line: what the parser's treatment of separator lines is
  compared with.
\<close>

definition delete_separator_lines :: "string \<Rightarrow> string" where
  "delete_separator_lines text =
     concat (filter (\<lambda>line. \<not> is_separator line) (splitlines_keepends text))"

text \<open>
  Lines 57 to 73: \<^verbatim>\<open>table_data\<close> as the loop leaves it; and the whole of
  \<^verbatim>\<open>parse_markdown_table\<close>.
\<close>

definition collect_rows :: "string list \<Rightarrow> string list list" where
  "collect_rows table_lines = fst (scan_lines table_lines ([], False))"

definition parse_markdown_table :: "(string \<Rightarrow> 'n option) \<Rightarrow> string \<Rightarrow> error + 'n frame" where
  "parse_markdown_table num ocr_text =
     (let cleaned_text = strip_emphasis ocr_text;
          table_lines = splitlines cleaned_text;
          table_data = collect_rows table_lines
      in build_table num table_data)"

text \<open>
  A literal parser to run the model with: the unsigned decimal integers, which
  denote themselves.
\<close>

definition digit_val :: "char \<Rightarrow> nat option" where
  "digit_val c =
     (let n = (of_char c :: nat) in if 48 \<le> n \<and> n \<le> 57 then Some (n - 48) else None)"

fun decimal_acc :: "nat \<Rightarrow> string \<Rightarrow> nat option" where
  "decimal_acc acc [] = Some acc"
| "decimal_acc acc (c # cs) =
     (case digit_val c of None \<Rightarrow> None | Some d \<Rightarrow> decimal_acc (10 * acc + d) cs)"

definition decimal :: "string \<Rightarrow> nat option" where
  "decimal s = (if s = [] then None else decimal_acc 0 s)"

section \<open>Properties of the string operations\<close>

lemma rstrip_append:
  "\<exists>b. s = rstrip s @ b \<and> (\<forall>c\<in>set b. isspace c)"
proof -
  have "rev s = takeWhile isspace (rev s) @ dropWhile isspace (rev s)" by simp
  then have "rev (rev s) = rev (takeWhile isspace (rev s) @ dropWhile isspace (rev s))"
    by (rule arg_cong)
  then have "s = rev (dropWhile isspace (rev s)) @ rev (takeWhile isspace (rev s))"
    by (simp only: rev_append rev_rev_ident)
  moreover have "\<forall>c\<in>set (rev (takeWhile isspace (rev s))). isspace c"
    by (auto dest: set_takeWhileD)
  ultimately show ?thesis unfolding rstrip_def by blast
qed

lemma lstrip_append:
  "\<exists>a. s = a @ lstrip s \<and> (\<forall>c\<in>set a. isspace c)"
proof -
  have "s = takeWhile isspace s @ lstrip s" by (simp add: lstrip_def)
  moreover have "\<forall>c\<in>set (takeWhile isspace s). isspace c"
    by (auto dest: set_takeWhileD)
  ultimately show ?thesis by blast
qed

lemma rstrip_last: "rstrip s \<noteq> [] \<Longrightarrow> \<not> isspace (last (rstrip s))"
  unfolding rstrip_def by (simp add: last_rev hd_dropWhile)

lemma lstrip_hd: "lstrip s \<noteq> [] \<Longrightarrow> \<not> isspace (hd (lstrip s))"
  unfolding lstrip_def by (simp add: hd_dropWhile)

lemma rstrip_hd: "rstrip s \<noteq> [] \<Longrightarrow> hd (rstrip s) = hd s"
proof -
  assume ne: "rstrip s \<noteq> []"
  from rstrip_append obtain b where "s = rstrip s @ b" by blast
  then have "hd s = hd (rstrip s @ b)" by simp
  with ne show ?thesis by simp
qed

lemma strip_decompose:
  "\<exists>a b. s = a @ strip s @ b \<and> (\<forall>c\<in>set a. isspace c) \<and> (\<forall>c\<in>set b. isspace c)"
proof -
  from lstrip_append obtain a where a: "s = a @ lstrip s" "\<forall>c\<in>set a. isspace c" by blast
  from rstrip_append [of "lstrip s"] obtain b where
    b: "lstrip s = strip s @ b" "\<forall>c\<in>set b. isspace c"
    unfolding strip_def by blast
  from a(1) b(1) have "s = a @ strip s @ b" by simp
  with a(2) b(2) show ?thesis by blast
qed

lemma strip_ends:
  assumes "strip s \<noteq> []"
  shows "\<not> isspace (hd (strip s))" and "\<not> isspace (last (strip s))"
proof -
  from assms have ne: "lstrip s \<noteq> []"
    by (auto simp: strip_def rstrip_def)
  from assms have "hd (strip s) = hd (lstrip s)"
    unfolding strip_def by (rule rstrip_hd)
  with lstrip_hd [OF ne] show "\<not> isspace (hd (strip s))" by simp
  from assms show "\<not> isspace (last (strip s))"
    unfolding strip_def by (rule rstrip_last)
qed

lemma lstrip_id: "s = [] \<or> \<not> isspace (hd s) \<Longrightarrow> lstrip s = s"
  by (cases s) (auto simp: lstrip_def)

lemma rstrip_id: "s = [] \<or> \<not> isspace (last s) \<Longrightarrow> rstrip s = s"
  by (cases s rule: rev_cases) (auto simp: rstrip_def)

lemma strip_id:
  assumes "s = [] \<or> (\<not> isspace (hd s) \<and> \<not> isspace (last s))"
  shows "strip s = s"
proof -
  from assms have "lstrip s = s" by (intro lstrip_id) blast
  moreover from assms have "rstrip s = s" by (intro rstrip_id) blast
  ultimately show ?thesis by (simp add: strip_def)
qed

lemma strip_strip: "strip (strip s) = strip s"
proof (rule strip_id)
  show "strip s = [] \<or> (\<not> isspace (hd (strip s)) \<and> \<not> isspace (last (strip s)))"
    using strip_ends [of s] by blast
qed






lemma split_acc_parts:
  "p \<in> set (split_acc d cur s) \<Longrightarrow> d \<notin> set cur \<Longrightarrow> d \<notin> set p \<and> set p \<subseteq> set cur \<union> set s"
proof (induction s arbitrary: cur)
  case Nil
  then show ?case by simp
next
  case (Cons c cs)
  show ?case
  proof (cases "c = d")
    case True
    with Cons.prems have "p = cur \<or> p \<in> set (split_acc d [] cs)" by simp
    then show ?thesis
    proof
      assume "p = cur"
      with Cons.prems(2) show ?thesis by auto
    next
      assume "p \<in> set (split_acc d [] cs)"
      from Cons.IH [OF this] show ?thesis by auto
    qed
  next
    case False
    with Cons.prems have "p \<in> set (split_acc d (cur @ [c]) cs)" "d \<notin> set (cur @ [c])"
      by auto
    from Cons.IH [OF this] show ?thesis by auto
  qed
qed


lemma split_parts: "p \<in> set (split d s) \<Longrightarrow> d \<notin> set p \<and> set p \<subseteq> set s"
  using split_acc_parts [of p d "[]" s] by (simp add: split_def)

lemma concat_map_if:
  "concat (map (\<lambda>x. if P x then [f x] else []) xs) = map f (filter P xs)"
  by (induction xs) auto

lemma tokenize_filter_map:
  "tokenize line = filter (\<lambda>c. c \<noteq> []) (map strip (split (CHR ''|'') line))"
  unfolding tokenize_def by (simp only: concat_map_if filter_map comp_def)

lemma strip_subset: "set (strip p) \<subseteq> set p"
proof -
  from strip_decompose [of p] obtain a b where "p = a @ strip p @ b" by blast
  then have "set p = set (a @ strip p @ b)" by simp
  then show ?thesis by auto
qed

lemma tokenize_cells:
  assumes "c \<in> set (tokenize line)"
  shows "c \<noteq> []" and "\<not> isspace (hd c)" and "\<not> isspace (last c)" and "CHR ''|'' \<notin> set c"
    and "strip c = c"
proof -
  from assms obtain p where p: "p \<in> set (split (CHR ''|'') line)" "c = strip p" "strip p \<noteq> []"
    unfolding tokenize_filter_map by auto
  from p show "c \<noteq> []" by simp
  from p strip_ends [of p] show "\<not> isspace (hd c)" "\<not> isspace (last c)" by simp_all
  from split_parts [OF p(1)] strip_subset [of p] p(2) show "CHR ''|'' \<notin> set c" by auto
  from p(2) show "strip c = c" by (simp only: strip_strip)
qed

lemma map_strip_tokenize: "map strip (tokenize line) = tokenize line"
proof (rule map_idI)
  fix c assume "c \<in> set (tokenize line)"
  then show "strip c = c" by (rule tokenize_cells(5))
qed

lemma py_in_char: "py_in [d] s \<longleftrightarrow> d \<in> set s"
  by (induction s) auto

lemma startswith_set: "startswith s p \<Longrightarrow> set p \<subseteq> set s"
  by (induction s p rule: startswith.induct) auto

lemma py_in_set: "py_in sub s \<Longrightarrow> set sub \<subseteq> set s"
proof (induction s)
  case Nil
  then show ?case by simp
next
  case (Cons c cs)
  from Cons.prems have "startswith (c # cs) sub \<or> py_in sub cs" by simp
  then show ?case
  proof
    assume "startswith (c # cs) sub"
    then show ?thesis by (rule startswith_set)
  next
    assume "py_in sub cs"
    from Cons.IH [OF this] show ?thesis by auto
  qed
qed


section \<open>Properties of the frame operations\<close>

lemma length_le_width: "row \<in> set data \<Longrightarrow> length row \<le> width data"
  unfolding width_def by (induction data) auto

lemma width_le:
  "(\<forall>row\<in>set data. length row \<le> n) \<Longrightarrow> width data \<le> n"
  unfolding width_def by (induction data) auto

lemma set_positions: "set (positions c hs) = {j. j < length hs \<and> hs ! j = c}"
  by (auto simp: positions_def)

lemma positions_single:
  assumes "positions c hs = [j]"
  shows "j < length hs" and "hs ! j = c" and "k < length hs \<Longrightarrow> hs ! k = c \<Longrightarrow> k = j"
  using set_positions [of c hs] assms by auto

lemma coerce_columns_fields:
  "coerce_columns num cols df = Inr df' \<Longrightarrow>
     columns df' = columns df \<and> index df' = index df \<and> length (rows df') = length (rows df)"
proof (induction cols arbitrary: df)
  case Nil
  then show ?case by simp
next
  case (Cons col cols)
  from Cons.prems obtain j where j: "positions col (columns df) = [j]"
    by (auto split: list.splits)
  let ?df1 = "df\<lparr>rows := [row[j := to_numeric num (row ! j)]. row \<leftarrow> rows df]\<rparr>"
  from Cons.prems j have "coerce_columns num cols ?df1 = Inr df'" by simp
  from Cons.IH [OF this] show ?case by simp
qed

lemma coerce_columns_unique:
  "coerce_columns num cols df = Inr df' \<Longrightarrow> c \<in> set cols \<Longrightarrow>
     \<exists>j. positions c (columns df) = [j]"
proof (induction cols arbitrary: df)
  case Nil
  then show ?case by simp
next
  case (Cons col cols)
  from Cons.prems obtain j where j: "positions col (columns df) = [j]"
    by (auto split: list.splits)
  let ?df1 = "df\<lparr>rows := [row[j := to_numeric num (row ! j)]. row \<leftarrow> rows df]\<rparr>"
  from Cons.prems j have run: "coerce_columns num cols ?df1 = Inr df'" by simp
  show ?case
  proof (cases "c = col")
    case True
    with j show ?thesis by blast
  next
    case False
    with Cons.prems have "c \<in> set cols" by simp
    from Cons.IH [OF run this] show ?thesis by simp
  qed
qed

lemma to_numeric_twice: "to_numeric num (to_numeric num c) = to_numeric num c"
  by (cases c) (auto split: option.splits)

lemma coerce_columns_nth:
  "coerce_columns num cols df = Inr df' \<Longrightarrow> i < length (rows df) \<Longrightarrow>
     length (rows df' ! i) = length (rows df ! i)
     \<and> (\<forall>j < length (rows df ! i).
           rows df' ! i ! j =
             (if \<exists>c\<in>set cols. positions c (columns df) = [j]
              then to_numeric num (rows df ! i ! j) else rows df ! i ! j))"
proof (induction cols arbitrary: df)
  case Nil
  then show ?case by simp
next
  case (Cons col cols)
  from Cons.prems obtain k where k: "positions col (columns df) = [k]"
    by (auto split: list.splits)
  let ?df1 = "df\<lparr>rows := [row[k := to_numeric num (row ! k)]. row \<leftarrow> rows df]\<rparr>"
  from Cons.prems k have run: "coerce_columns num cols ?df1 = Inr df'" by simp
  from Cons.prems have i1: "i < length (rows ?df1)" by simp
  note IH = Cons.IH [OF run i1]
  have row1: "rows ?df1 ! i = (rows df ! i)[k := to_numeric num (rows df ! i ! k)]"
    using Cons.prems by simp
  show ?case
  proof (intro conjI allI impI)
    show "length (rows df' ! i) = length (rows df ! i)"
      using IH row1 by simp
  next
    fix j assume j: "j < length (rows df ! i)"
    then have j1: "j < length (rows ?df1 ! i)" using row1 by simp
    from IH j1 have eq: "rows df' ! i ! j =
        (if \<exists>c\<in>set cols. positions c (columns df) = [j]
         then to_numeric num (rows ?df1 ! i ! j) else rows ?df1 ! i ! j)"
      by simp
    show "rows df' ! i ! j =
        (if \<exists>c\<in>set (col # cols). positions c (columns df) = [j]
         then to_numeric num (rows df ! i ! j) else rows df ! i ! j)"
    proof (cases "j = k")
      case True
      then have "rows ?df1 ! i ! j = to_numeric num (rows df ! i ! j)"
        using row1 j by simp
      moreover have "\<exists>c\<in>set (col # cols). positions c (columns df) = [j]"
        using True k by auto
      ultimately show ?thesis using eq by (simp add: to_numeric_twice)
    next
      case False
      then have same: "rows ?df1 ! i ! j = rows df ! i ! j"
        using row1 by simp
      have "positions col (columns df) \<noteq> [j]" using False k by simp
      then have "(\<exists>c\<in>set (col # cols). positions c (columns df) = [j])
                 = (\<exists>c\<in>set cols. positions c (columns df) = [j])"
        by simp
      then show ?thesis using eq same by simp
    qed
  qed
qed

text \<open>
  What the coercion loop does to one row of a frame whose labels after the first occur
  once each: the first cell stays, every other cell is coerced.
\<close>

definition coerce_tail :: "(string \<Rightarrow> 'n option) \<Rightarrow> 'n cell list \<Rightarrow> 'n cell list" where
  "coerce_tail num row = (case row of [] \<Rightarrow> [] | c # cs \<Rightarrow> c # map (to_numeric num) cs)"

lemma coerce_tail_nth:
  "j < length row \<Longrightarrow>
     coerce_tail num row ! j = (if 0 < j then to_numeric num (row ! j) else row ! j)"
  by (cases row; cases j) (auto simp: coerce_tail_def)

lemma length_coerce_tail [simp]: "length (coerce_tail num row) = length row"
  by (cases row) (auto simp: coerce_tail_def)

lemma tl_positions:
  assumes uniq: "\<forall>c\<in>set (tl hs). \<exists>j. positions c hs = [j]" and j: "j < length hs"
  shows "(\<exists>c\<in>set (tl hs). positions c hs = [j]) \<longleftrightarrow> 0 < j"
proof
  assume "\<exists>c\<in>set (tl hs). positions c hs = [j]"
  then obtain c where c: "c \<in> set (tl hs)" and p: "positions c hs = [j]" by blast
  from c obtain k where k: "k < length (tl hs)" "tl hs ! k = c"
    by (auto simp: in_set_conv_nth)
  then have "Suc k < length hs" "hs ! Suc k = c"
    by (auto simp: nth_tl)
  with positions_single(3) [OF p] have "Suc k = j" by blast
  then show "0 < j" by auto
next
  assume pos: "0 < j"
  with j have mem: "hs ! j \<in> set (tl hs)"
    by (cases hs; cases j) auto
  with uniq obtain k where k: "positions (hs ! j) hs = [k]" by blast
  from positions_single(3) [OF k j] have "j = k" by simp
  with k mem show "\<exists>c\<in>set (tl hs). positions c hs = [j]" by blast
qed

lemma coerce_columns_tl:
  assumes run: "coerce_columns num (tl (columns df)) df = Inr df'"
    and wf: "\<forall>row\<in>set (rows df). length row = length (columns df)"
  shows "df' = df\<lparr>rows := map (coerce_tail num) (rows df)\<rparr>"
proof -
  note f = coerce_columns_fields [OF run]
  have uniq: "\<forall>c\<in>set (tl (columns df)). \<exists>j. positions c (columns df) = [j]"
    using coerce_columns_unique [OF run] by blast
  have "rows df' ! i = coerce_tail num (rows df ! i)" if i: "i < length (rows df)" for i
  proof -
    note n = coerce_columns_nth [OF run i]
    from i wf have len: "length (rows df ! i) = length (columns df)" by simp
    show ?thesis
    proof (rule nth_equalityI)
      show "length (rows df' ! i) = length (coerce_tail num (rows df ! i))"
        using n by simp
    next
      fix j assume "j < length (rows df' ! i)"
      with n have j: "j < length (rows df ! i)" by simp
      with len have "(\<exists>c\<in>set (tl (columns df)). positions c (columns df) = [j]) \<longleftrightarrow> 0 < j"
        using tl_positions [OF uniq] by simp
      with n j show "rows df' ! i ! j = coerce_tail num (rows df ! i) ! j"
        by (simp add: coerce_tail_nth)
    qed
  qed
  then have "rows df' = map (coerce_tail num) (rows df)"
    using f by (intro nth_equalityI) auto
  with f show ?thesis by simp
qed

lemma positions_nonempty: "c \<in> set hs \<Longrightarrow> positions c hs \<noteq> []"
proof -
  assume "c \<in> set hs"
  then have "set (positions c hs) \<noteq> {}"
    by (auto simp: set_positions in_set_conv_nth)
  then show ?thesis by auto
qed

lemma coerce_columns_succeeds:
  "\<forall>c\<in>set cols. \<exists>j. positions c (columns df) = [j] \<Longrightarrow>
     \<exists>df'. coerce_columns num cols df = Inr df'"
proof (induction cols arbitrary: df)
  case Nil
  then show ?case by simp
next
  case (Cons col cols)
  then obtain j where j: "positions col (columns df) = [j]" by auto
  let ?df1 = "df\<lparr>rows := [row[j := to_numeric num (row ! j)]. row \<leftarrow> rows df]\<rparr>"
  from Cons.prems have "\<forall>c\<in>set cols. \<exists>j. positions c (columns ?df1) = [j]" by simp
  from Cons.IH [OF this] j show ?case by simp
qed

lemma coerce_columns_error:
  "coerce_columns num cols df = Inl e \<Longrightarrow> set cols \<subseteq> set (columns df) \<Longrightarrow> e = TypeError"
proof (induction cols arbitrary: df)
  case Nil
  then show ?case by simp
next
  case (Cons col cols)
  from Cons.prems have ne: "positions col (columns df) \<noteq> []"
    by (simp add: positions_nonempty)
  show ?case
  proof (cases "\<exists>j. positions col (columns df) = [j]")
    case True
    then obtain j where j: "positions col (columns df) = [j]" by blast
    let ?df1 = "df\<lparr>rows := [row[j := to_numeric num (row ! j)]. row \<leftarrow> rows df]\<rparr>"
    from Cons.prems j have "coerce_columns num cols ?df1 = Inl e" "set cols \<subseteq> set (columns ?df1)"
      by auto
    then show ?thesis by (rule Cons.IH)
  next
    case False
    with ne Cons.prems(1) show ?thesis
      by (auto split: list.splits)
  qed
qed

lemma zip_map_filter:
  "[x. (x, keep) \<leftarrow> zip xs (map f xs), keep] = filter f xs"
  by (induction xs) auto

lemma DataFrame_Inr:
  assumes "DataFrame data headers = Inr df"
  shows "columns df = headers" and "index df = [0..<length data]"
    and "rows df = [map Str row @ replicate (length headers - length row) Missing. row \<leftarrow> data]"
    and "\<forall>row\<in>set data. length row \<le> length headers"
proof -
  show "columns df = headers" "index df = [0..<length data]"
    using assms by (auto simp: DataFrame_def split: if_splits)
  show "rows df = [map Str row @ replicate (length headers - length row) Missing. row \<leftarrow> data]"
    using assms by (auto simp: DataFrame_def split: if_splits)
  show "\<forall>row\<in>set data. length row \<le> length headers"
    using assms length_le_width [of _ data] by (auto simp: DataFrame_def split: if_splits)
qed

lemma length_pad_row: "length (pad_row n row) = max n (length row)"
  by (simp add: pad_row_def)

lemma build_table_Inr:
  fixes num :: "string \<Rightarrow> 'n option"
  assumes run: "build_table num (hdr # body) = Inr df"
  shows "columns df = map strip hdr"
    and "rows df = map (coerce_tail num \<circ> map Str)
                     (filter (\<lambda>row. \<not> search_nocase ''EXISTING LEVELS'' (hd row))
                        (map (pad_row (length hdr)) body))"
    and "index df = [0..<length (rows df)]"
    and "hdr \<noteq> []"
    and "\<forall>row\<in>set body. length row \<le> length hdr"
    and "\<forall>c\<in>set (tl (map strip hdr)). \<exists>j. positions c (map strip hdr) = [j]"
proof -
  let ?headers = "map strip hdr"
  let ?data = "map (pad_row (length hdr)) body"
  let ?keep = "\<lambda>c::'n cell. \<not> str_contains_nocase ''EXISTING LEVELS'' c"
  from run obtain df0 :: "'n frame" where df0: "DataFrame ?data ?headers = Inr df0"
    by (auto simp: build_table_def Let_def split: sum.splits)
  from run df0 obtain col0 where col0: "iloc_col0 df0 = Inr col0"
    by (auto simp: build_table_def Let_def split: sum.splits)
  let ?df1 = "reset_index (loc df0 (map ?keep col0))"
  from run df0 col0 have co: "coerce_columns num (tl (columns ?df1)) ?df1 = Inr df"
    by (simp add: build_table_def Let_def)
  note D = DataFrame_Inr [OF df0]
  from col0 have ne: "columns df0 \<noteq> []" and c0: "col0 = map hd (rows df0)"
    by (auto simp: iloc_col0_def split: if_splits)
  from ne D(1) show hdr: "hdr \<noteq> []" by simp
  from D(4) show short: "\<forall>row\<in>set body. length row \<le> length hdr"
    by (auto simp: length_pad_row)
  then have len: "\<forall>row\<in>set ?data. length row = length hdr"
    by (auto simp: length_pad_row)
  then have rows0: "rows df0 = map (map Str) ?data"
    using D(3) by simp
  have cols1: "columns ?df1 = ?headers"
    using D(1) by (simp add: reset_index_def loc_def)
  have "rows ?df1 = filter (?keep \<circ> hd) (rows df0)"
    using zip_map_filter [of "rows df0" "?keep \<circ> hd"]
    by (simp add: reset_index_def loc_def c0)
  also have "\<dots> = map (map Str) (filter (?keep \<circ> hd \<circ> map Str) ?data)"
    unfolding rows0 filter_map comp_assoc ..
  also have "filter (?keep \<circ> hd \<circ> map Str) ?data
             = filter (\<lambda>row. \<not> search_nocase ''EXISTING LEVELS'' (hd row)) ?data"
  proof (rule filter_cong [OF refl])
    fix row assume "row \<in> set ?data"
    with len hdr have "row \<noteq> []" by auto
    then show "(?keep \<circ> hd \<circ> map Str) row = (\<not> search_nocase ''EXISTING LEVELS'' (hd row))"
      by (cases row) auto
  qed
  finally have rows1: "rows ?df1 = map (map Str)
      (filter (\<lambda>row. \<not> search_nocase ''EXISTING LEVELS'' (hd row)) ?data)" .
  have wf1: "\<forall>row\<in>set (rows ?df1). length row = length (columns ?df1)"
    using len by (auto simp: rows1 cols1)
  from coerce_columns_tl [OF co wf1]
  have dfeq: "df = ?df1\<lparr>rows := map (coerce_tail num) (rows ?df1)\<rparr>" .
  from arg_cong [OF dfeq, of columns] show "columns df = ?headers"
    by (simp add: cols1)
  from arg_cong [OF dfeq, of rows] have R: "rows df = map (coerce_tail num) (rows ?df1)"
    by simp
  then show "rows df = map (coerce_tail num \<circ> map Str)
                     (filter (\<lambda>row. \<not> search_nocase ''EXISTING LEVELS'' (hd row)) ?data)"
    by (simp add: rows1)
  from arg_cong [OF dfeq, of index] have "index df = [0..<length (rows ?df1)]"
    by (simp add: reset_index_def)
  also have "length (rows ?df1) = length (rows df)"
    using R by simp
  finally show "index df = [0..<length (rows df)]" .
  show "\<forall>c\<in>set (tl ?headers). \<exists>j. positions c ?headers = [j]"
    using coerce_columns_unique [OF co] cols1 by auto
qed

lemma build_table_succeeds:
  fixes num :: "string \<Rightarrow> 'n option"
  assumes hdr: "hdr \<noteq> []"
    and short: "\<forall>row\<in>set body. length row \<le> length hdr"
    and uniq: "\<forall>c\<in>set (tl (map strip hdr)). \<exists>j. positions c (map strip hdr) = [j]"
  shows "\<exists>df. build_table num (hdr # body) = Inr df"
proof -
  let ?headers = "map strip hdr"
  let ?data = "map (pad_row (length hdr)) body"
  let ?keep = "\<lambda>c::'n cell. \<not> str_contains_nocase ''EXISTING LEVELS'' c"
  have len: "\<forall>row\<in>set ?data. length row = length hdr"
    using short by (auto simp: length_pad_row)
  have "width ?data = length hdr" if "body \<noteq> []"
  proof (rule antisym)
    show "width ?data \<le> length hdr"
      using len by (intro width_le) simp
    from that obtain row where "row \<in> set ?data" by (cases body) auto
    with len length_le_width [of row ?data] show "length hdr \<le> width ?data" by auto
  qed
  then have "\<exists>df0 :: 'n frame. DataFrame ?data ?headers = Inr df0"
    by (cases "body = []") (simp_all add: DataFrame_def)
  then obtain df0 :: "'n frame" where df0: "DataFrame ?data ?headers = Inr df0"
    by blast
  note D = DataFrame_Inr [OF df0]
  from hdr D(1) have col0: "iloc_col0 df0 = Inr (map hd (rows df0))"
    by (simp add: iloc_col0_def)
  let ?df1 = "reset_index (loc df0 (map ?keep (map hd (rows df0))))"
  have cols1: "columns ?df1 = ?headers"
    using D(1) by (simp add: reset_index_def loc_def)
  with uniq have "\<forall>c\<in>set (tl (columns ?df1)). \<exists>j. positions c (columns ?df1) = [j]"
    by simp
  from coerce_columns_succeeds [OF this]
  obtain df where "coerce_columns num (tl (columns ?df1)) ?df1 = Inr df" by blast
  with df0 col0 show ?thesis
    by (simp add: build_table_def Let_def)
qed

subsection \<open>The line scan and the whole parser\<close>

lemma scan_lines_eq:
  "scan_lines ls (table_data, is_table) =
     (table_data @ map tokenize (filter is_data_row ls),
      is_table \<or> (\<exists>l\<in>set ls. is_separator l))"
proof (induction ls arbitrary: table_data is_table)
  case Nil
  show ?case by simp
next
  case (Cons line ls)
  show ?case
  proof (cases "py_in ''|'' line \<and> py_in ''---'' line")
    case True
    then have "is_separator line" "\<not> is_data_row line"
      by (simp_all add: is_separator_def is_data_row_def)
    with True Cons.IH [of table_data True] show ?thesis by simp
  next
    case False
    then have sep: "\<not> is_separator line" by (simp add: is_separator_def)
    show ?thesis
    proof (cases "py_in ''|'' line")
      case True
      with sep have "is_data_row line" by (simp add: is_data_row_def)
      with True False sep Cons.IH [of "table_data @ [tokenize line]" is_table]
      show ?thesis by simp
    next
      case no: False
      then have "\<not> is_data_row line" by (simp add: is_data_row_def)
      with no sep Cons.IH [of table_data is_table] show ?thesis by simp
    qed
  qed
qed

lemma collect_rows_eq: "collect_rows ls = map tokenize (filter is_data_row ls)"
  by (simp add: collect_rows_def scan_lines_eq)

lemma filter_single:
  assumes "distinct xs" "x \<in> set xs" "P x" "\<And>y. y \<in> set xs \<Longrightarrow> P y \<Longrightarrow> y = x"
  shows "filter P xs = [x]"
  using assms
proof (induction xs)
  case Nil
  then show ?case by simp
next
  case (Cons a xs)
  from Cons.prems(1) have d: "distinct xs" and a: "a \<notin> set xs" by simp_all
  show ?case
  proof (cases "a = x")
    case True
    have "\<not> P y" if "y \<in> set xs" for y
    proof
      assume "P y"
      with that Cons.prems(4) [of y] have "y = x" by simp
      with that True a show False by simp
    qed
    then have "filter P xs = []" by (simp only: filter_empty_conv) blast
    with True Cons.prems(3) show ?thesis by simp
  next
    case False
    with Cons.prems(2) have x: "x \<in> set xs" by simp
    have na: "\<not> P a"
    proof
      assume "P a"
      with Cons.prems(4) [of a] have "a = x" by simp
      with False show False by simp
    qed
    have "filter P xs = [x]"
    proof (rule Cons.IH [OF d x Cons.prems(3)])
      fix y assume "y \<in> set xs" "P y"
      then show "y = x" using Cons.prems(4) [of y] by simp
    qed
    with na show ?thesis by simp
  qed
qed

lemma distinct_positions:
  assumes "distinct hs" "c \<in> set hs"
  shows "\<exists>j. positions c hs = [j]"
proof -
  from assms(2) obtain j where j: "j < length hs" "hs ! j = c"
    by (auto simp: in_set_conv_nth)
  have "filter (\<lambda>k. hs ! k = c) [0..<length hs] = [j]"
  proof (rule filter_single)
    show "distinct [0..<length hs]" by simp
    show "j \<in> set [0..<length hs]" using j by simp
    show "hs ! j = c" by (rule j(2))
    fix y assume "y \<in> set [0..<length hs]" "hs ! y = c"
    then have "y < length hs" "hs ! y = hs ! j" using j by simp_all
    with assms(1) j(1) show "y = j" by (simp add: nth_eq_iff_index_eq)
  qed
  then show ?thesis unfolding positions_def by blast
qed

lemma parse_markdown_table_eq:
  "parse_markdown_table num ocr_text =
     build_table num (collect_rows (splitlines (strip_emphasis ocr_text)))"
  by (simp add: parse_markdown_table_def Let_def)

lemma build_table_Nil: "build_table num [] = Inr empty_frame"
  by (simp add: build_table_def)

lemma to_numeric_Str: "to_numeric num (Str s) = Missing \<or> (\<exists>x. to_numeric num (Str s) = Num x)"
  by (cases "num s") auto

lemma coerce_tail_Str:
  "cells \<noteq> [] \<Longrightarrow>
     coerce_tail num (map Str cells) = Str (hd cells) # map (\<lambda>s. to_numeric num (Str s)) (tl cells)"
  by (cases cells) (simp_all add: coerce_tail_def comp_def)

lemma build_table_header_only:
  fixes num :: "string \<Rightarrow> 'n option"
  assumes ne: "hdr \<noteq> []" and d: "distinct (map strip hdr)"
  shows "build_table num [hdr] = Inr \<lparr>columns = map strip hdr, index = [], rows = []\<rparr>"
proof -
  have uniq: "\<forall>c\<in>set (tl (map strip hdr)). \<exists>j. positions c (map strip hdr) = [j]"
  proof
    fix c assume "c \<in> set (tl (map strip hdr))"
    then have "c \<in> set (map strip hdr)" by (rule list.set_sel(2) [rotated]) (use ne in simp)
    with d show "\<exists>j. positions c (map strip hdr) = [j]" by (rule distinct_positions)
  qed
  have short: "\<forall>row\<in>set []. length row \<le> length hdr" by simp
  from build_table_succeeds [OF ne short uniq, of num]
  obtain df :: "'n frame" where df: "build_table num [hdr] = Inr df" by blast
  note B = build_table_Inr [OF df]
  from B(2) have r: "rows df = []" by simp
  with B(3) have i: "index df = []" by simp
  from B(1) r i have "df = \<lparr>columns = map strip hdr, index = [], rows = []\<rparr>"
    by simp
  with df show ?thesis by simp
qed


section \<open>Properties of emphasis stripping\<close>

lemma startswith_stars_LF: "startswith (s @ LF # y) ''**'' = startswith s ''**''"
proof (cases s)
  case Nil
  then show ?thesis by simp
next
  case (Cons c cs)
  then show ?thesis by (cases cs) auto
qed

lemma find_close_LF:
  "find_close (s @ LF # y) =
     (case find_close s of None \<Rightarrow> None | Some (inner, rest) \<Rightarrow> Some (inner, rest @ LF # y))"
proof (induction s)
  case Nil
  show ?case by simp
next
  case (Cons c cs)
  have st: "startswith (c # cs @ LF # y) ''**'' = startswith (c # cs) ''**''"
    using startswith_stars_LF [of "c # cs" y] by simp
  show ?case
  proof (cases "startswith (c # cs) ''**''")
    case True
    then obtain ds where ds: "cs = CHR ''*'' # ds" and c: "c = CHR ''*''"
      by (cases cs) auto
    then show ?thesis by simp
  next
    case False
    with st have "\<not> startswith (c # cs @ LF # y) ''**''" by simp
    with False Cons.IH show ?thesis
      by (simp split: option.splits)
  qed
qed

lemma strip_emphasis_skip:
  "\<not> startswith (c # cs) ''**'' \<Longrightarrow> strip_emphasis (c # cs) = c # strip_emphasis cs"
  by (simp only: strip_emphasis.simps if_False)

lemma strip_emphasis_open:
  "startswith (c # cs) ''**'' \<Longrightarrow> find_close (drop 2 (c # cs)) = None \<Longrightarrow>
     strip_emphasis (c # cs) = c # strip_emphasis cs"
  by (simp only: strip_emphasis.simps if_True option.case)

lemma strip_emphasis_match:
  "startswith (c # cs) ''**'' \<Longrightarrow> find_close (drop 2 (c # cs)) = Some (inner, rest) \<Longrightarrow>
     strip_emphasis (c # cs) = inner @ strip_emphasis rest"
  by (simp only: strip_emphasis.simps if_True option.case prod.case)

lemma strip_emphasis_LF:
  "strip_emphasis (x @ LF # y) = strip_emphasis x @ LF # strip_emphasis y"
proof (induction x rule: strip_emphasis.induct)
  case 1
  show ?case by simp
next
  case (2 c cs)
  have st: "startswith (c # (cs @ LF # y)) ''**'' = startswith (c # cs) ''**''"
    using startswith_stars_LF [of "c # cs" y] by simp
  show ?case
  proof (cases "startswith (c # cs) ''**''")
    case True
    with st have True': "startswith (c # (cs @ LF # y)) ''**''" by simp
    from True obtain ds where ds: "cs = CHR ''*'' # ds"
      by (cases cs) auto
    have dr: "drop 2 (c # (cs @ LF # y)) = drop 2 (c # cs) @ LF # y"
      using ds by simp
    show ?thesis
    proof (cases "find_close (drop 2 (c # cs))")
      case None
      then have "find_close (drop 2 (c # (cs @ LF # y))) = None"
        by (simp only: dr find_close_LF option.case)
      with True' have a: "strip_emphasis (c # (cs @ LF # y)) = c # strip_emphasis (cs @ LF # y)"
        by (rule strip_emphasis_open)
      have b: "strip_emphasis (cs @ LF # y) = strip_emphasis cs @ LF # strip_emphasis y"
        by (rule "2.IH"(1) [OF True None])
      have e: "strip_emphasis (c # cs) = c # strip_emphasis cs"
        by (rule strip_emphasis_open [OF True None])
      show ?thesis by (simp only: append_Cons a b e)
    next
      case (Some ir)
      obtain inner rest where ir: "ir = (inner, rest)" by (cases ir)
      with Some have fc: "find_close (drop 2 (c # cs)) = Some (inner, rest)" by simp
      then have "find_close (drop 2 (c # (cs @ LF # y))) = Some (inner, rest @ LF # y)"
        by (simp only: dr find_close_LF option.case prod.case)
      with True' have a: "strip_emphasis (c # (cs @ LF # y))
          = inner @ strip_emphasis (rest @ LF # y)"
        by (rule strip_emphasis_match)
      have b: "strip_emphasis (rest @ LF # y) = strip_emphasis rest @ LF # strip_emphasis y"
        by (rule "2.IH"(2) [OF True fc refl])
      have e: "strip_emphasis (c # cs) = inner @ strip_emphasis rest"
        by (rule strip_emphasis_match [OF True fc])
      show ?thesis by (simp only: append_Cons a b e append_assoc)
    qed
  next
    case False
    with st have "\<not> startswith (c # (cs @ LF # y)) ''**''" by simp
    then have a: "strip_emphasis (c # (cs @ LF # y)) = c # strip_emphasis (cs @ LF # y)"
      by (rule strip_emphasis_skip)
    have b: "strip_emphasis (cs @ LF # y) = strip_emphasis cs @ LF # strip_emphasis y"
      by (rule "2.IH"(3) [OF False])
    have e: "strip_emphasis (c # cs) = c # strip_emphasis cs"
      by (rule strip_emphasis_skip [OF False])
    show ?thesis by (simp only: append_Cons a b e)
  qed
qed

text \<open>
  Text that holds no marker and does not end with a star, so that no marker can begin
  in it when a marker follows it.
\<close>

definition plain :: "string \<Rightarrow> bool" where
  "plain s = (\<not> py_in ''**'' s \<and> (s = [] \<or> last s \<noteq> CHR ''*''))"

lemma plain_Cons:
  assumes "plain (c # s)"
  shows "plain s" and "\<not> startswith (c # s @ t) ''**''"
proof -
  from assms have np: "\<not> py_in ''**'' (c # s)" and l: "last (c # s) \<noteq> CHR ''*''"
    by (simp_all add: plain_def)
  from np have ns: "\<not> startswith (c # s) ''**''" and np': "\<not> py_in ''**'' s"
    by simp_all
  from l np' show "plain s" by (cases s) (simp_all add: plain_def)
  show "\<not> startswith (c # s @ t) ''**''"
  proof (cases s)
    case Nil
    with l show ?thesis by simp
  next
    case (Cons d ds)
    with ns show ?thesis by simp
  qed
qed

lemma strip_emphasis_plain_prefix:
  "plain p \<Longrightarrow> strip_emphasis (p @ s) = p @ strip_emphasis s"
proof (induction p)
  case Nil
  show ?case by simp
next
  case (Cons c p)
  note P = plain_Cons [OF Cons.prems]
  from P(2) [of s] have "strip_emphasis (c # (p @ s)) = c # strip_emphasis (p @ s)"
    by (rule strip_emphasis_skip)
  with Cons.IH [OF P(1)] show ?case by simp
qed



lemma strip_emphasis_no_marker:
  "\<not> py_in ''**'' s \<Longrightarrow> strip_emphasis s = s"
proof (induction s)
  case Nil
  show ?case by simp
next
  case (Cons c s)
  from Cons.prems have ns: "\<not> startswith (c # s) ''**''" and np: "\<not> py_in ''**'' s"
    by simp_all
  from strip_emphasis_skip [OF ns] Cons.IH [OF np] show ?case by simp
qed

lemma find_close_no_marker:
  "\<not> py_in ''**'' s \<Longrightarrow> find_close s = None"
proof (induction s)
  case Nil
  show ?case by simp
next
  case (Cons c s)
  from Cons.prems have ns: "\<not> startswith (c # s) ''**''" and np: "\<not> py_in ''**'' s"
    by simp_all
  from Cons.IH [OF np] ns show ?case
    by (simp only: find_close.simps if_False option.case if_cancel)
qed

lemma no_star_plain: "CHR ''*'' \<notin> set s \<Longrightarrow> plain s"
proof -
  assume ns: "CHR ''*'' \<notin> set s"
  have "\<not> py_in ''**'' s"
  proof
    assume "py_in ''**'' s"
    then have "set ''**'' \<subseteq> set s" by (rule py_in_set)
    with ns show False by simp
  qed
  moreover have "s = [] \<or> last s \<noteq> CHR ''*''"
    using ns by (cases s rule: rev_cases) auto
  ultimately show ?thesis by (simp add: plain_def)
qed

lemma strip_emphasis_lone_marker:
  assumes "CHR ''*'' \<notin> set a"
  shows "strip_emphasis (''**'' @ a) = ''**'' @ a"
proof -
  from no_star_plain [OF assms] have np: "\<not> py_in ''**'' a" by (simp add: plain_def)
  have st: "startswith (CHR ''*'' # CHR ''*'' # a) ''**''" by simp
  have "find_close (drop 2 (CHR ''*'' # CHR ''*'' # a)) = None"
    using find_close_no_marker [OF np] by simp
  with st have 1: "strip_emphasis (CHR ''*'' # CHR ''*'' # a)
                     = CHR ''*'' # strip_emphasis (CHR ''*'' # a)"
    by (rule strip_emphasis_open)
  have "\<not> startswith (CHR ''*'' # a) ''**''"
    using assms by (cases a) auto
  then have 2: "strip_emphasis (CHR ''*'' # a) = CHR ''*'' # strip_emphasis a"
    by (rule strip_emphasis_skip)
  from 1 2 strip_emphasis_no_marker [OF np] show ?thesis by simp
qed

subsection \<open>Substrings\<close>

lemma startswith_append: "startswith s p \<Longrightarrow> startswith (s @ t) p"
  by (induction s p rule: startswith.induct) auto

lemma py_in_append_left: "py_in sub u \<Longrightarrow> py_in sub (u @ v)"
proof (induction u)
  case Nil
  then have "sub = []" by simp
  then show ?case by (cases v) simp_all
next
  case (Cons c u)
  from Cons.prems have "startswith (c # u) sub \<or> py_in sub u" by simp
  then show ?case
  proof
    assume "startswith (c # u) sub"
    then have "startswith ((c # u) @ v) sub" by (rule startswith_append)
    then show ?thesis by simp
  next
    assume "py_in sub u"
    from Cons.IH [OF this] show ?thesis by simp
  qed
qed

lemma py_in_append_right: "py_in sub v \<Longrightarrow> py_in sub (u @ v)"
  by (induction u) auto

lemma startswith_before:
  "startswith (u @ c # v) sub \<Longrightarrow> c \<notin> set sub \<Longrightarrow> startswith u sub"
proof (induction u arbitrary: sub)
  case Nil
  then show ?case by (cases sub) auto
next
  case (Cons a u)
  show ?case
  proof (cases sub)
    case Nil
    then show ?thesis by simp
  next
    case (Cons b bs)
    with Cons.prems have "a = b" "startswith (u @ c # v) bs" "c \<notin> set bs"
      by auto
    with Cons.IH [of bs] Cons show ?thesis by simp
  qed
qed

lemma py_in_split:
  "py_in sub (u @ c # v) \<Longrightarrow> c \<notin> set sub \<Longrightarrow> py_in sub u \<or> py_in sub v"
proof (induction u)
  case Nil
  from Nil.prems have "startswith (c # v) sub \<or> py_in sub v" by simp
  then show ?case
  proof
    assume "startswith (c # v) sub"
    with Nil.prems(2) have "sub = []" by (cases sub) auto
    then show ?thesis by simp
  next
    assume "py_in sub v"
    then show ?thesis by simp
  qed
next
  case (Cons a u)
  from Cons.prems(1) have "startswith ((a # u) @ c # v) sub \<or> py_in sub (u @ c # v)"
    by simp
  then show ?case
  proof
    assume "startswith ((a # u) @ c # v) sub"
    from startswith_before [OF this Cons.prems(2)] show ?thesis by simp
  next
    assume "py_in sub (u @ c # v)"
    from Cons.IH [OF this Cons.prems(2)] show ?thesis by auto
  qed
qed

subsection \<open>Lines ended by line feeds\<close>

lemma splitlines_acc_nobreak:
  "\<forall>c\<in>set x. \<not> is_linebreak c \<Longrightarrow> splitlines_acc cur (x @ s) = splitlines_acc (cur @ x) s"
  by (induction x arbitrary: cur) simp_all

lemma splitlines_keep_acc_nobreak:
  "\<forall>c\<in>set x. \<not> is_linebreak c \<Longrightarrow>
     splitlines_keep_acc cur (x @ s) = splitlines_keep_acc (cur @ x) s"
  by (induction x arbitrary: cur) simp_all

lemma LF_linebreak: "is_linebreak LF"
  by (simp add: is_linebreak_def)

lemma splitlines_LF:
  assumes "\<forall>c\<in>set x. \<not> is_linebreak c"
  shows "splitlines (x @ LF # y) = x # splitlines y"
proof -
  have "splitlines_acc x (LF # y) = x # splitlines_acc [] y"
    using LF_linebreak by (cases y) simp_all
  with splitlines_acc_nobreak [OF assms, of "[]" "LF # y"] show ?thesis
    by (simp add: splitlines_def)
qed

lemma splitlines_keepends_LF:
  assumes "\<forall>c\<in>set x. \<not> is_linebreak c"
  shows "splitlines_keepends (x @ LF # y) = (x @ [LF]) # splitlines_keepends y"
proof -
  have "splitlines_keep_acc x (LF # y) = (x @ [LF]) # splitlines_keep_acc [] y"
    using LF_linebreak by (cases y) simp_all
  with splitlines_keep_acc_nobreak [OF assms, of "[]" "LF # y"] show ?thesis
    by (simp add: splitlines_keepends_def)
qed

lemma splitlines_nobreak:
  assumes "\<forall>c\<in>set x. \<not> is_linebreak c"
  shows "splitlines x = (if x = [] then [] else [x])"
  using splitlines_acc_nobreak [OF assms, of "[]" "[]"] by (simp add: splitlines_def)

lemma splitlines_keepends_nobreak:
  assumes "\<forall>c\<in>set x. \<not> is_linebreak c"
  shows "splitlines_keepends x = (if x = [] then [] else [x])"
  using splitlines_keep_acc_nobreak [OF assms, of "[]" "[]"]
  by (simp add: splitlines_keepends_def)

subsection \<open>What emphasis stripping keeps\<close>

lemma find_close_Some:
  "find_close s = Some (inner, rest) \<Longrightarrow> s = inner @ ''**'' @ rest"
proof (induction s arbitrary: inner)
  case Nil
  then show ?case by simp
next
  case (Cons c cs)
  show ?case
  proof (cases "startswith (c # cs) ''**''")
    case True
    then obtain ds where "cs = CHR ''*'' # ds" "c = CHR ''*''"
      by (cases cs) auto
    with True Cons.prems show ?thesis by auto
  next
    case False
    with Cons.prems obtain inner' where
      i: "find_close cs = Some (inner', rest)" "inner = c # inner'"
      by (auto split: if_splits option.splits)
    from Cons.IH [OF i(1)] i(2) show ?thesis by simp
  qed
qed

lemma strip_emphasis_cases:
  obtains (skip) "\<not> startswith (c # cs) ''**''"
      "strip_emphasis (c # cs) = c # strip_emphasis cs"
  | (unclosed) "startswith (c # cs) ''**''" "find_close (drop 2 (c # cs)) = None"
      "strip_emphasis (c # cs) = c # strip_emphasis cs"
  | (match) inner rest where "startswith (c # cs) ''**''"
      "find_close (drop 2 (c # cs)) = Some (inner, rest)"
      "c # cs = ''**'' @ inner @ ''**'' @ rest"
      "strip_emphasis (c # cs) = inner @ strip_emphasis rest"
proof (cases "startswith (c # cs) ''**''")
  case False
  from False strip_emphasis_skip [OF False] show ?thesis by (rule skip)
next
  case True
  show ?thesis
  proof (cases "find_close (drop 2 (c # cs))")
    case None
    from True None strip_emphasis_open [OF True None] show ?thesis by (rule unclosed)
  next
    case (Some ir)
    obtain inner rest where ir: "ir = (inner, rest)" by (cases ir)
    with Some have fc: "find_close (drop 2 (c # cs)) = Some (inner, rest)" by simp
    from True obtain ds where ds: "cs = CHR ''*'' # ds" "c = CHR ''*''"
      by (cases cs) auto
    from find_close_Some [OF fc] ds have "c # cs = ''**'' @ inner @ ''**'' @ rest"
      by simp
    with True fc have "c # cs = ''**'' @ inner @ ''**'' @ rest" by simp
    from True fc this strip_emphasis_match [OF True fc] show ?thesis by (rule match)
  qed
qed

lemma set_strip_emphasis: "set (strip_emphasis s) \<subseteq> set s"
proof (induction s rule: strip_emphasis.induct)
  case 1
  show ?case by simp
next
  case (2 c cs)
  show ?case
  proof (cases c cs rule: strip_emphasis_cases)
    case skip
    from "2.IH"(3) [OF skip(1)] skip(2) show ?thesis by auto
  next
    case unclosed
    from "2.IH"(1) [OF unclosed(1,2)] unclosed(3) show ?thesis by auto
  next
    case (match inner rest)
    from "2.IH"(2) [OF match(1,2) refl] have "set (strip_emphasis rest) \<subseteq> set rest" .
    moreover from match(3) have "set (c # cs) = set (''**'' @ inner @ ''**'' @ rest)"
      by (simp only:)
    ultimately show ?thesis using match(4) by auto
  qed
qed

lemma py_in_Nil: "py_in [] s"
  by (cases s) simp_all

lemma startswith_strip_emphasis:
  "startswith s sub \<Longrightarrow> CHR ''*'' \<notin> set sub \<Longrightarrow> startswith (strip_emphasis s) sub"
proof (induction sub arbitrary: s)
  case Nil
  show ?case by simp
next
  case (Cons b bs)
  from Cons.prems(1) obtain s' where s: "s = b # s'" and st: "startswith s' bs"
    by (cases s) auto
  from Cons.prems(2) have b: "b \<noteq> CHR ''*''" and bs: "CHR ''*'' \<notin> set bs" by auto
  from b have "\<not> startswith (b # s') ''**''" by simp
  then have "strip_emphasis (b # s') = b # strip_emphasis s'" by (rule strip_emphasis_skip)
  with Cons.IH [OF st bs] s show ?case by simp
qed

lemma py_in_strip_emphasis:
  "py_in sub s \<Longrightarrow> CHR ''*'' \<notin> set sub \<Longrightarrow> py_in sub (strip_emphasis s)"
proof (induction s rule: strip_emphasis.induct)
  case 1
  then show ?case by simp
next
  case (2 c cs)
  note star = "2.prems"(2)
  have copied: "py_in sub (strip_emphasis (c # cs))"
    if eq: "strip_emphasis (c # cs) = c # strip_emphasis cs"
      and ih: "py_in sub cs \<Longrightarrow> py_in sub (strip_emphasis cs)"
  proof -
    from "2.prems"(1) have "startswith (c # cs) sub \<or> py_in sub cs" by simp
    then show ?thesis
    proof
      assume "startswith (c # cs) sub"
      from startswith_strip_emphasis [OF this star] eq
      have "startswith (c # strip_emphasis cs) sub" by simp
      with eq show ?thesis by simp
    next
      assume "py_in sub cs"
      from ih [OF this] eq show ?thesis by simp
    qed
  qed
  show ?case
  proof (cases c cs rule: strip_emphasis_cases)
    case skip
    show ?thesis
      by (rule copied [OF skip(2)]) (rule "2.IH"(3) [OF skip(1) _ star])
  next
    case unclosed
    show ?thesis
      by (rule copied [OF unclosed(3)]) (rule "2.IH"(1) [OF unclosed(1,2) _ star])
  next
    case (match inner rest)
    show ?thesis
    proof (cases "sub = []")
      case True
      then show ?thesis by (simp only: py_in_Nil)
    next
      case False
      from "2.prems"(1) match(3)
      have "py_in sub ([] @ CHR ''*'' # (CHR ''*'' # inner @ ''**'' @ rest))" by simp
      from py_in_split [OF this star] False
      have "py_in sub ([] @ CHR ''*'' # (inner @ ''**'' @ rest))" by simp
      from py_in_split [OF this star] False
      have "py_in sub (inner @ CHR ''*'' # (CHR ''*'' # rest))" by simp
      from py_in_split [OF this star]
      have "py_in sub inner \<or> py_in sub ([] @ CHR ''*'' # rest)" by simp
      then have "py_in sub inner \<or> py_in sub rest"
        using py_in_split [OF _ star, of "[]" rest] False by auto
      then have "py_in sub (inner @ strip_emphasis rest)"
      proof
        assume "py_in sub inner"
        then show ?thesis by (rule py_in_append_left)
      next
        assume "py_in sub rest"
        from "2.IH"(2) [OF match(1,2) refl this star] show ?thesis
          by (rule py_in_append_right)
      qed
      with match(4) show ?thesis by simp
    qed
  qed
qed

lemma is_separator_strip_emphasis:
  "is_separator line \<Longrightarrow> is_separator (strip_emphasis line)"
  by (simp add: is_separator_def py_in_strip_emphasis)

subsection \<open>Deleting separator lines\<close>

lemma is_separator_LF_end: "is_separator (x @ [LF]) = is_separator x"
proof -
  have "py_in ''|'' (x @ [LF]) = py_in ''|'' x"
    by (simp add: py_in_char)
  moreover have "py_in ''---'' (x @ [LF]) = py_in ''---'' x"
  proof
    assume "py_in ''---'' (x @ [LF])"
    then have "py_in ''---'' (x @ LF # [])" by simp
    from py_in_split [OF this] show "py_in ''---'' x" by simp
  next
    assume "py_in ''---'' x"
    then show "py_in ''---'' (x @ [LF])" by (rule py_in_append_left)
  qed
  ultimately show ?thesis by (simp add: is_separator_def)
qed

lemma collect_rows_Cons:
  "collect_rows (l # ls) = (if is_data_row l then [tokenize l] else []) @ collect_rows ls"
  by (simp add: collect_rows_eq)

lemma not_data_row_Nil: "\<not> is_data_row []"
  by (simp add: is_data_row_def)

lemma nobreak_strip_emphasis:
  "\<forall>c\<in>set x. \<not> is_linebreak c \<Longrightarrow> \<forall>c\<in>set (strip_emphasis x). \<not> is_linebreak c"
  using set_strip_emphasis [of x] by blast

lemma table_data_LF:
  assumes "\<forall>c\<in>set x. \<not> is_linebreak c"
  shows "collect_rows (splitlines (strip_emphasis (x @ LF # y)))
           = (if is_data_row (strip_emphasis x) then [tokenize (strip_emphasis x)] else [])
             @ collect_rows (splitlines (strip_emphasis y))"
proof -
  have "splitlines (strip_emphasis (x @ LF # y))
          = strip_emphasis x # splitlines (strip_emphasis y)"
    unfolding strip_emphasis_LF
    by (rule splitlines_LF) (rule nobreak_strip_emphasis [OF assms])
  then show ?thesis by (simp only: collect_rows_Cons)
qed

lemma table_data_nobreak:
  assumes "\<forall>c\<in>set x. \<not> is_linebreak c"
  shows "collect_rows (splitlines (strip_emphasis x))
           = (if is_data_row (strip_emphasis x) then [tokenize (strip_emphasis x)] else [])"
proof -
  from splitlines_nobreak [OF nobreak_strip_emphasis [OF assms]]
  have "splitlines (strip_emphasis x)
          = (if strip_emphasis x = [] then [] else [strip_emphasis x])" .
  then show ?thesis
    using not_data_row_Nil by (auto simp: collect_rows_eq)
qed

lemma delete_separator_lines_LF:
  assumes "\<forall>c\<in>set x. \<not> is_linebreak c"
  shows "delete_separator_lines (x @ LF # y)
           = (if is_separator x then [] else x @ [LF]) @ delete_separator_lines y"
  by (simp add: delete_separator_lines_def splitlines_keepends_LF [OF assms]
      is_separator_LF_end)

lemma is_separator_Nil: "\<not> is_separator []"
  by (simp add: is_separator_def)

lemma delete_separator_lines_nobreak:
  assumes "\<forall>c\<in>set x. \<not> is_linebreak c"
  shows "delete_separator_lines x = (if is_separator x then [] else x)"
  using is_separator_Nil
  by (auto simp: delete_separator_lines_def splitlines_keepends_nobreak [OF assms])

lemma separator_row_dropped:
  assumes "is_separator x"
  shows "(if is_data_row (strip_emphasis x) then [tokenize (strip_emphasis x)] else []) = []"
  using is_separator_strip_emphasis [OF assms] by (simp add: is_data_row_def)

lemma table_data_delete_separator_lines:
  "\<forall>c\<in>set s. is_linebreak c \<longrightarrow> c = LF \<Longrightarrow>
     collect_rows (splitlines (strip_emphasis (delete_separator_lines s)))
       = collect_rows (splitlines (strip_emphasis s))"
proof (induction s rule: length_induct)
  case (1 s)
  note lf = "1.prems"
  show ?case
  proof (cases "LF \<in> set s")
    case False
    with lf have nb: "\<forall>c\<in>set s. \<not> is_linebreak c" by blast
    show ?thesis
    proof (cases "is_separator s")
      case True
      have "\<forall>c\<in>set ([]::string). \<not> is_linebreak c" by simp
      from table_data_nobreak [OF this]
      have "collect_rows (splitlines (strip_emphasis [])) = []"
        by (simp add: not_data_row_Nil)
      with True show ?thesis
        by (simp only: delete_separator_lines_nobreak [OF nb] table_data_nobreak [OF nb]
            separator_row_dropped [OF True] if_True)
    next
      case False
      then show ?thesis
        by (simp only: delete_separator_lines_nobreak [OF nb] if_False)
    qed
  next
    case True
    define x where "x = takeWhile (\<lambda>c. c \<noteq> LF) s"
    define y where "y = tl (dropWhile (\<lambda>c. c \<noteq> LF) s)"
    from True have "dropWhile (\<lambda>c. c \<noteq> LF) s \<noteq> []"
      by (simp add: dropWhile_eq_Nil_conv)
    moreover from this have "hd (dropWhile (\<lambda>c. c \<noteq> LF) s) = LF"
      using hd_dropWhile [of "\<lambda>c. c \<noteq> LF" s] by simp
    ultimately have dw: "dropWhile (\<lambda>c. c \<noteq> LF) s = LF # y"
      unfolding y_def by (cases "dropWhile (\<lambda>c. c \<noteq> LF) s") simp_all
    have s: "s = x @ LF # y"
      using takeWhile_dropWhile_id [of "\<lambda>c. c \<noteq> LF" s] dw x_def by simp
    have nbx: "\<forall>c\<in>set x. \<not> is_linebreak c"
    proof
      fix c assume c: "c \<in> set x"
      then have "c \<noteq> LF" unfolding x_def by (auto dest: set_takeWhileD)
      moreover from c s have "c \<in> set s" by simp
      ultimately show "\<not> is_linebreak c" using lf by blast
    qed
    from s lf have lfy: "\<forall>c\<in>set y. is_linebreak c \<longrightarrow> c = LF" by simp
    from s have "length y < length s" by simp
    with "1.IH" lfy have IH:
      "collect_rows (splitlines (strip_emphasis (delete_separator_lines y)))
         = collect_rows (splitlines (strip_emphasis y))"
      by blast
    show ?thesis
    proof (cases "is_separator x")
      case True
      then have "delete_separator_lines s = delete_separator_lines y"
        by (simp add: s delete_separator_lines_LF [OF nbx])
      with IH True show ?thesis
        by (simp only: s table_data_LF [OF nbx] separator_row_dropped append_Nil)
    next
      case False
      then have "delete_separator_lines s = x @ LF # delete_separator_lines y"
        by (simp add: s delete_separator_lines_LF [OF nbx])
      with IH show ?thesis
        by (simp only: s table_data_LF [OF nbx])
    qed
  qed
qed

lemma collect_rows_filter:
  "collect_rows (filter (\<lambda>line. \<not> is_separator line) ls) = collect_rows ls"
proof -
  have "filter is_data_row (filter (\<lambda>line. \<not> is_separator line) ls) = filter is_data_row ls"
    by (simp only: filter_filter) (rule filter_cong, auto simp: is_data_row_def)
  then show ?thesis by (simp only: collect_rows_eq)
qed

lemma coerce_columns_again:
  fixes num :: "string \<Rightarrow> 'n option"
  assumes run: "coerce_columns num cols df = Inr df'"
  shows "coerce_columns num cols df' = Inr df'"
proof -
  note f = coerce_columns_fields [OF run]
  have "\<forall>c\<in>set cols. \<exists>j. positions c (columns df') = [j]"
    using coerce_columns_unique [OF run] f by simp
  from coerce_columns_succeeds [OF this, of num]
  obtain df'' :: "'n frame" where run': "coerce_columns num cols df' = Inr df''" by blast
  note f' = coerce_columns_fields [OF run']
  have "rows df'' ! i = rows df' ! i" if i: "i < length (rows df)" for i
  proof (rule nth_equalityI)
    from i f have i': "i < length (rows df')" by simp
    note n = coerce_columns_nth [OF run i]
    note n' = coerce_columns_nth [OF run' i']
    show "length (rows df'' ! i) = length (rows df' ! i)" using n' by simp
    fix j assume "j < length (rows df'' ! i)"
    with n n' have j: "j < length (rows df ! i)" and j': "j < length (rows df' ! i)"
      by simp_all
    from n j have 1: "rows df' ! i ! j =
        (if \<exists>c\<in>set cols. positions c (columns df) = [j]
         then to_numeric num (rows df ! i ! j) else rows df ! i ! j)"
      by blast
    from n' j' f have 2: "rows df'' ! i ! j =
        (if \<exists>c\<in>set cols. positions c (columns df) = [j]
         then to_numeric num (rows df' ! i ! j) else rows df' ! i ! j)"
      by simp
    show "rows df'' ! i ! j = rows df' ! i ! j"
      unfolding 2 by (simp add: 1 to_numeric_twice)
  qed
  then have "rows df'' = rows df'"
    using f f' by (intro nth_equalityI) simp_all
  with f' have "df'' = df'" by simp
  with run' show ?thesis by simp
qed

lemma collect_rows_tokenized:
  assumes "collect_rows ls = hdr # body"
  shows "map strip hdr = hdr"
proof -
  from assms have "hdr \<in> set (map tokenize (filter is_data_row ls))"
    by (simp add: collect_rows_eq)
  then obtain l where "hdr = tokenize l" by auto
  then show ?thesis by (simp only: map_strip_tokenize)
qed

lemma parse_rows:
  fixes num :: "string \<Rightarrow> 'n option"
  assumes run: "parse_markdown_table num ocr_text = Inr df"
    and td: "collect_rows (splitlines (strip_emphasis ocr_text)) = hdr # body"
  shows "columns df = hdr"
    and "rows df =
           map (\<lambda>cells. Str (hd cells)
                  # map (\<lambda>s. if s = [] then Missing
                              else (case num s of Some x \<Rightarrow> Num x | None \<Rightarrow> Missing))
                      (tl cells))
             (filter (\<lambda>cells. \<not> search_nocase ''EXISTING LEVELS'' (hd cells))
                (map (pad_row (length hdr)) body))"
proof -
  from run td have b: "build_table num (hdr # body) = Inr df"
    by (simp add: parse_markdown_table_eq)
  note B = build_table_Inr [OF b]
  from B(1) collect_rows_tokenized [OF td] show "columns df = hdr" by simp
  let ?kept = "filter (\<lambda>cells. \<not> search_nocase ''EXISTING LEVELS'' (hd cells))
                (map (pad_row (length hdr)) body)"
  have "(coerce_tail num \<circ> map Str) cells
          = Str (hd cells)
            # map (\<lambda>s. if s = [] then Missing
                        else (case num s of Some x \<Rightarrow> Num x | None \<Rightarrow> Missing))
                (tl cells)"
    if "cells \<in> set ?kept" for cells
  proof -
    from that have "cells \<in> set (map (pad_row (length hdr)) body)" by simp
    with B(5) have "length cells = length hdr" by (auto simp: length_pad_row)
    with B(4) have "cells \<noteq> []" by auto
    from coerce_tail_Str [OF this, of num] show ?thesis by simp
  qed
  then have "map (coerce_tail num \<circ> map Str) ?kept
          = map (\<lambda>cells. Str (hd cells)
                  # map (\<lambda>s. if s = [] then Missing
                              else (case num s of Some x \<Rightarrow> Num x | None \<Rightarrow> Missing))
                      (tl cells)) ?kept"
    by (intro map_cong refl)
  with B(2) show "rows df =
           map (\<lambda>cells. Str (hd cells)
                  # map (\<lambda>s. if s = [] then Missing
                              else (case num s of Some x \<Rightarrow> Num x | None \<Rightarrow> Missing))
                      (tl cells)) ?kept"
    by simp
qed

lemma parse_row_shape:
  fixes num :: "string \<Rightarrow> 'n option"
  assumes run: "parse_markdown_table num ocr_text = Inr df" and row: "row \<in> set (rows df)"
  shows "length row = length (columns df)
         \<and> (\<exists>s. hd row = Str s)
         \<and> (\<forall>c\<in>set (tl row). c = Missing \<or> (\<exists>x. c = Num x))"
proof (cases "collect_rows (splitlines (strip_emphasis ocr_text))")
  case Nil
  with run have "df = empty_frame"
    by (simp add: parse_markdown_table_eq build_table_Nil)
  with row show ?thesis by (simp add: empty_frame_def)
next
  case (Cons hdr body)
  with run have b: "build_table num (hdr # body) = Inr df"
    by (simp add: parse_markdown_table_eq)
  note B = build_table_Inr [OF b]
  from row B(2) obtain cells where
    cells: "cells \<in> set (map (pad_row (length hdr)) body)" and
    r: "row = coerce_tail num (map Str cells)"
    by auto
  from cells B(5) have len: "length cells = length hdr"
    by (auto simp: length_pad_row)
  with B(4) have ne: "cells \<noteq> []" by auto
  from r coerce_tail_Str [OF ne] have
    r': "row = Str (hd cells) # map (\<lambda>s. to_numeric num (Str s)) (tl cells)"
    by simp
  have "length row = length (columns df)"
    using r len B(1) by simp
  moreover have "\<exists>s. hd row = Str s" using r' by simp
  moreover have "\<forall>c\<in>set (tl row). c = Missing \<or> (\<exists>x. c = Num x)"
  proof
    fix c assume "c \<in> set (tl row)"
    with r' obtain s where "c = to_numeric num (Str s)"
      by (auto simp del: to_numeric.simps)
    with to_numeric_Str [of num s] show "c = Missing \<or> (\<exists>x. c = Num x)"
      by (simp only:)
  qed
  ultimately show ?thesis by blast
qed

lemma filter_nth_kept:
  assumes i: "i < length xs" and P: "P (xs ! i)"
  shows "filter P xs ! length (filter P (take i xs)) = xs ! i"
    and "length (filter P (take i xs)) < length (filter P xs)"
proof -
  from i have "xs = take i xs @ xs ! i # drop (Suc i) xs"
    by (rule id_take_nth_drop)
  then have "filter P xs = filter P (take i xs @ xs ! i # drop (Suc i) xs)"
    by (rule arg_cong)
  with P have eq: "filter P xs
      = filter P (take i xs) @ xs ! i # filter P (drop (Suc i) xs)"
    by simp
  show "filter P xs ! length (filter P (take i xs)) = xs ! i"
    by (subst eq) (rule nth_append_length)
  have "length (filter P xs)
          = length (filter P (take i xs) @ xs ! i # filter P (drop (Suc i) xs))"
    using eq by (rule arg_cong)
  then show "length (filter P (take i xs)) < length (filter P xs)"
    by simp
qed

lemma parse_succeeds:
  fixes num :: "string \<Rightarrow> 'n option"
  assumes td: "collect_rows (splitlines (strip_emphasis ocr_text)) = hdr # body"
    and ne: "hdr \<noteq> []" and d: "distinct hdr"
    and short: "\<forall>row\<in>set body. length row \<le> length hdr"
  shows "\<exists>df. parse_markdown_table num ocr_text = Inr df"
proof -
  have s: "map strip hdr = hdr" by (rule collect_rows_tokenized [OF td])
  have uniq: "\<forall>c\<in>set (tl (map strip hdr)). \<exists>j. positions c (map strip hdr) = [j]"
  proof
    fix c assume "c \<in> set (tl (map strip hdr))"
    with s ne have "c \<in> set hdr" by (simp add: list.set_sel(2))
    with d s show "\<exists>j. positions c (map strip hdr) = [j]"
      by (simp add: distinct_positions)
  qed
  from build_table_succeeds [OF ne short uniq, of num] td show ?thesis
    by (simp add: parse_markdown_table_eq)
qed




lemma single_header_line_distinct:
  fixes num :: "string \<Rightarrow> 'n option"
  assumes one: "filter is_data_row (splitlines (strip_emphasis ocr_text)) = [line]"
    and cells: "tokenize line \<noteq> []"
    and d: "distinct (tokenize line)"
  shows "parse_markdown_table num ocr_text
           = Inr \<lparr>columns = tokenize line, index = [], rows = []\<rparr>"
proof -
  from one have "collect_rows (splitlines (strip_emphasis ocr_text)) = [tokenize line]"
    by (simp add: collect_rows_eq)
  then have "parse_markdown_table num ocr_text = build_table num [tokenize line]"
    by (simp add: parse_markdown_table_eq)
  also have "\<dots> = Inr \<lparr>columns = map strip (tokenize line), index = [], rows = []\<rparr>"
  proof (rule build_table_header_only)
    show "tokenize line \<noteq> []" by (rule cells)
    show "distinct (map strip (tokenize line))"
      using d by (simp only: map_strip_tokenize)
  qed
  finally show ?thesis by (simp only: map_strip_tokenize)
qed

section \<open>Failure on ragged and empty header rows\<close>

text \<open>
  C1. The claim: for every input string the parser returns a table and never raises;
  a body row longer than the header row, or a header line without cells, gives an
  empty or partial table. The code raises on both: on the two-line input whose body
  row has two cells under a one-cell header the frame constructor raises
  \<^verbatim>\<open>ValueError\<close>, and on the one-line input \<^verbatim>\<open>|\<close>, whose header has no cells, the
  read of the first column raises \<^verbatim>\<open>IndexError\<close>.
\<close>

theorem parse_markdown_table_raises:
  "parse_markdown_table decimal (''|a|'' @ [LF] @ ''|1|2|'') = Inl ValueError
   \<and> parse_markdown_table decimal ''|'' = Inl IndexError"
  by code_simp

section \<open>Typed columns\<close>

text \<open>
  C2. Typed columns. In the returned table the columns are the header cells, and
  each row comes from one padded body row that is kept: its first cell is the first
  cell of that body row, as a string, never coerced; each other cell is the number
  the literal parser gives for the string in that place, or the missing marker when
  the string is empty or no numeric literal. So every row has one cell for each
  column, a string in the first column, and in every other column a number or the
  missing marker, never a string.
\<close>

theorem numeric_columns:
  fixes num :: "string \<Rightarrow> 'n option"
  assumes run: "parse_markdown_table num ocr_text = Inr df"
  shows "(\<forall>hdr body. collect_rows (splitlines (strip_emphasis ocr_text)) = hdr # body \<longrightarrow>
            columns df = hdr
            \<and> rows df =
                map (\<lambda>cells. Str (hd cells)
                       # map (\<lambda>s. if s = [] then Missing
                                   else (case num s of Some x \<Rightarrow> Num x | None \<Rightarrow> Missing))
                           (tl cells))
                  (filter (\<lambda>cells. \<not> search_nocase ''EXISTING LEVELS'' (hd cells))
                     (map (pad_row (length hdr)) body)))
         \<and> (\<forall>row\<in>set (rows df).
               length row = length (columns df)
               \<and> (\<exists>s. hd row = Str s)
               \<and> (\<forall>c\<in>set (tl row). c = Missing \<or> (\<exists>x. c = Num x)))"
  using parse_rows [OF run] parse_row_shape [OF run] by blast

theorem numeric_columns_witness:
  "parse_markdown_table decimal
     (''| Chainage | Depth |'' @ [LF] @ ''| 10 | 12 |'' @ [LF] @ ''| 20 | abc |'')
     = Inr \<lparr>columns = [''Chainage'', ''Depth''], index = [0, 1],
            rows = [[Str ''10'', Num 12], [Str ''20'', Missing]]\<rparr>
   \<and> collect_rows (splitlines (strip_emphasis
         (''| Chainage | Depth |'' @ [LF] @ ''| 10 | 12 |'' @ [LF] @ ''| 20 | abc |'')))
     = [''Chainage'', ''Depth''] # [[''10'', ''12''], [''20'', ''abc'']]
   \<and> decimal ''12'' = Some 12 \<and> decimal ''abc'' = None
   \<and> [[Str ''10'', Num 12], [Str ''20'', Missing]]
     = map (\<lambda>cells. Str (hd cells)
              # map (\<lambda>s. if s = [] then Missing
                          else (case decimal s of Some x \<Rightarrow> Num x | None \<Rightarrow> Missing))
                  (tl cells))
         (filter (\<lambda>cells. \<not> search_nocase ''EXISTING LEVELS'' (hd cells))
            (map (pad_row (length [''Chainage'', ''Depth'']))
               [[''10'', ''12''], [''20'', ''abc'']]))"
proof -
  let ?text = "''| Chainage | Depth |'' @ [LF] @ ''| 10 | 12 |'' @ [LF] @ ''| 20 | abc |''"
  let ?df = "\<lparr>columns = [''Chainage'', ''Depth''], index = [0, 1],
            rows = [[Str ''10'', Num 12], [Str ''20'', Missing :: nat cell]]\<rparr>"
  have run: "parse_markdown_table decimal ?text = Inr ?df"
    by code_simp
  have td: "collect_rows (splitlines (strip_emphasis ?text))
              = [''Chainage'', ''Depth''] # [[''10'', ''12''], [''20'', ''abc'']]"
    by code_simp
  have d: "decimal ''12'' = Some 12" "decimal ''abc'' = None"
    by code_simp+
  from numeric_columns [OF run] td
  have "rows ?df
     = map (\<lambda>cells. Str (hd cells)
              # map (\<lambda>s. if s = [] then Missing
                          else (case decimal s of Some x \<Rightarrow> Num x | None \<Rightarrow> Missing))
                  (tl cells))
         (filter (\<lambda>cells. \<not> search_nocase ''EXISTING LEVELS'' (hd cells))
            (map (pad_row (length [''Chainage'', ''Depth'']))
               [[''10'', ''12''], [''20'', ''abc'']]))"
    by blast
  then have "[[Str ''10'', Num 12], [Str ''20'', Missing]]
     = map (\<lambda>cells. Str (hd cells)
              # map (\<lambda>s. if s = [] then Missing
                          else (case decimal s of Some x \<Rightarrow> Num x | None \<Rightarrow> Missing))
                  (tl cells))
         (filter (\<lambda>cells. \<not> search_nocase ''EXISTING LEVELS'' (hd cells))
            (map (pad_row (length [''Chainage'', ''Depth'']))
               [[''10'', ''12''], [''20'', ''abc'']]))"
    by (simp only: frame.simps)
  with run td d show ?thesis by blast
qed

section \<open>Sentinel rows\<close>

text \<open>
  C3. Sentinel removal. The rows of the returned table are the padded body rows, in
  their order, without the rows whose first cell contains \<^verbatim>\<open>EXISTING LEVELS\<close> in any
  mix of upper and lower case; every row kept is there, coerced; the index runs from 0
  without gaps; and no row of the result has such a first cell.
\<close>

theorem sentinel_rows_removed:
  fixes num :: "string \<Rightarrow> 'n option"
  assumes run: "parse_markdown_table num ocr_text = Inr df"
    and td: "collect_rows (splitlines (strip_emphasis ocr_text)) = hdr # body"
  shows "rows df = map (coerce_tail num \<circ> map Str)
                     (filter (\<lambda>row. \<not> search_nocase ''EXISTING LEVELS'' (hd row))
                        (map (pad_row (length hdr)) body))
         \<and> index df = [0..<length (rows df)]
         \<and> (\<forall>row\<in>set (rows df). \<forall>s. hd row = Str s \<longrightarrow>
               \<not> search_nocase ''EXISTING LEVELS'' s)"
proof -
  from run td have b: "build_table num (hdr # body) = Inr df"
    by (simp add: parse_markdown_table_eq)
  note B = build_table_Inr [OF b]
  have "\<not> search_nocase ''EXISTING LEVELS'' s"
    if row: "row \<in> set (rows df)" and s: "hd row = Str s" for row s
  proof -
    from row B(2) obtain cells where
      cells: "cells \<in> set (map (pad_row (length hdr)) body)"
      and keep: "\<not> search_nocase ''EXISTING LEVELS'' (hd cells)"
      and r: "row = coerce_tail num (map Str cells)"
      by auto
    from cells B(5) have "length cells = length hdr"
      by (auto simp: length_pad_row)
    with B(4) have "cells \<noteq> []" by auto
    from coerce_tail_Str [OF this, of num] r have "hd row = Str (hd cells)" by simp
    with s keep show ?thesis by simp
  qed
  with B(2) B(3) show ?thesis by blast
qed

theorem sentinel_rows_removed_witness:
  "parse_markdown_table decimal
     (''| Chainage | Depth |'' @ [LF] @ ''|---|---|'' @ [LF] @ ''| **0** | 12 |'' @ [LF]
      @ ''| existing Levels | 99 |'' @ [LF] @ ''| 10 | abc |'')
     = Inr \<lparr>columns = [''Chainage'', ''Depth''], index = [0, 1],
            rows = [[Str ''0'', Num 12], [Str ''10'', Missing]]\<rparr>
   \<and> collect_rows (splitlines (strip_emphasis
         (''| Chainage | Depth |'' @ [LF] @ ''|---|---|'' @ [LF] @ ''| **0** | 12 |'' @ [LF]
          @ ''| existing Levels | 99 |'' @ [LF] @ ''| 10 | abc |'')))
     = [''Chainage'', ''Depth'']
       # [[''0'', ''12''], [''existing Levels'', ''99''], [''10'', ''abc'']]
   \<and> [[Str ''0'', Num 12], [Str ''10'', Missing]]
     = map (coerce_tail decimal \<circ> map Str)
         (filter (\<lambda>row. \<not> search_nocase ''EXISTING LEVELS'' (hd row))
            (map (pad_row (length [''Chainage'', ''Depth'']))
               [[''0'', ''12''], [''existing Levels'', ''99''], [''10'', ''abc'']]))"
proof -
  let ?text = "''| Chainage | Depth |'' @ [LF] @ ''|---|---|'' @ [LF] @ ''| **0** | 12 |'' @ [LF]
      @ ''| existing Levels | 99 |'' @ [LF] @ ''| 10 | abc |''"
  let ?df = "\<lparr>columns = [''Chainage'', ''Depth''], index = [0, 1],
            rows = [[Str ''0'', Num 12], [Str ''10'', Missing :: nat cell]]\<rparr>"
  have run: "parse_markdown_table decimal ?text = Inr ?df"
    by code_simp
  have td: "collect_rows (splitlines (strip_emphasis ?text))
              = [''Chainage'', ''Depth'']
                # [[''0'', ''12''], [''existing Levels'', ''99''], [''10'', ''abc'']]"
    by code_simp
  from sentinel_rows_removed [OF run td]
  have "rows ?df = map (coerce_tail decimal \<circ> map Str)
         (filter (\<lambda>row. \<not> search_nocase ''EXISTING LEVELS'' (hd row))
            (map (pad_row (length [''Chainage'', ''Depth'']))
               [[''0'', ''12''], [''existing Levels'', ''99''], [''10'', ''abc'']]))"
    by blast
  then have "[[Str ''0'', Num 12], [Str ''10'', Missing]]
     = map (coerce_tail decimal \<circ> map Str)
         (filter (\<lambda>row. \<not> search_nocase ''EXISTING LEVELS'' (hd row))
            (map (pad_row (length [''Chainage'', ''Depth'']))
               [[''0'', ''12''], [''existing Levels'', ''99''], [''10'', ''abc'']]))"
    by (simp only: frame.simps)
  with run td show ?thesis by blast
qed

section \<open>Shape repair\<close>

text \<open>
  C4. The padding law, on the parser. Let the header line have \<open>h\<close> cells and let the
  body line number \<open>i\<close> have \<open>k < h\<close> cells. The row built for that line has exactly
  \<open>h\<close> cells: its first \<open>k\<close> cells are the cells of the line in order, the other
  \<open>h - k\<close> are the empty string. Short rows do not make the parser fail: it returns a
  table when the header cells are distinct and no body line has more than \<open>h\<close>
  cells. In the table returned, the row of that line (at the place left to it by the
  sentinel rows removed before it) has \<open>h\<close> cells: the first is the first cell of the
  padded row, the cells up to \<open>k\<close> are the coerced cells of the line, and every cell
  from \<open>k\<close> on, outside the first column, is the missing marker.
\<close>

theorem padding_law:
  fixes num :: "string \<Rightarrow> 'n option"
  assumes lines: "filter is_data_row (splitlines (strip_emphasis ocr_text)) = hline # blines"
    and i: "i < length blines"
    and h: "h = length (tokenize hline)"
    and cells: "cells = tokenize (blines ! i)"
    and short: "length cells < h"
    and padded: "padded = pad_row h cells"
    and n: "n = length (filter (\<lambda>row. \<not> search_nocase ''EXISTING LEVELS'' (hd row))
                          (take i (map (pad_row h \<circ> tokenize) blines)))"
  shows "length padded = h
         \<and> take (length cells) padded = cells
         \<and> drop (length cells) padded = replicate (h - length cells) []
         \<and> (distinct (tokenize hline) \<and> (\<forall>l\<in>set blines. length (tokenize l) \<le> h) \<longrightarrow>
               (\<exists>df. parse_markdown_table num ocr_text = Inr df))
         \<and> (\<forall>df. parse_markdown_table num ocr_text = Inr df
                   \<and> \<not> search_nocase ''EXISTING LEVELS'' (hd padded) \<longrightarrow>
               length (rows df ! n) = h
               \<and> rows df ! n ! 0 = Str (hd padded)
               \<and> (\<forall>j. 0 < j \<and> j < length cells \<longrightarrow>
                     rows df ! n ! j = to_numeric num (Str (cells ! j)))
               \<and> (\<forall>j. length cells \<le> j \<and> j < h \<and> 0 < j \<longrightarrow> rows df ! n ! j = Missing))"
proof (intro conjI allI impI)
  let ?keep = "\<lambda>row. \<not> search_nocase ''EXISTING LEVELS'' (hd row)"
  let ?g = "\<lambda>s. if s = [] then Missing
                 else (case num s of Some x \<Rightarrow> Num x | None \<Rightarrow> Missing)"
  let ?body = "map tokenize blines"
  let ?data = "map (pad_row h) ?body"
  from lines have td: "collect_rows (splitlines (strip_emphasis ocr_text))
                         = tokenize hline # ?body"
    by (simp add: collect_rows_eq)
  show len: "length padded = h"
    using short by (simp add: padded pad_row_def)
  show "take (length cells) padded = cells"
    by (simp add: padded pad_row_def)
  show "drop (length cells) padded = replicate (h - length cells) []"
    by (simp add: padded pad_row_def)
  have pj: "padded ! j = (if j < length cells then cells ! j else [])" if "j < h" for j
    using that by (simp add: padded pad_row_def nth_append)
  {
    assume a: "distinct (tokenize hline) \<and> (\<forall>l\<in>set blines. length (tokenize l) \<le> h)"
    from short h have ne: "tokenize hline \<noteq> []" by auto
    from a h have "\<forall>row\<in>set ?body. length row \<le> length (tokenize hline)" by simp
    with parse_succeeds [OF td ne, of num] a
    show "\<exists>df. parse_markdown_table num ocr_text = Inr df" by blast
  }
  {
    fix df :: "'n frame"
    assume a: "parse_markdown_table num ocr_text = Inr df
               \<and> \<not> search_nocase ''EXISTING LEVELS'' (hd padded)"
    then have run: "parse_markdown_table num ocr_text = Inr df"
      and keep: "?keep padded" by simp_all
    from parse_rows(2) [OF run td] h
    have rows: "rows df = map (\<lambda>cells. Str (hd cells) # map ?g (tl cells)) (filter ?keep ?data)"
      by simp
    from i have i': "i < length ?data" by simp
    from i have di: "?data ! i = padded" by (simp add: padded cells)
    have n': "n = length (filter ?keep (take i ?data))"
      by (simp add: n)
    from filter_nth_kept [of i ?data ?keep, OF i'] keep di n'
    have kn: "filter ?keep ?data ! n = padded" and nlt: "n < length (filter ?keep ?data)"
      by simp_all
    from rows nlt kn have row: "rows df ! n = Str (hd padded) # map ?g (tl padded)"
      by simp
    from len short have pne: "padded \<noteq> []" by auto
    from short have hpos: "0 < h" by simp
    show "length (rows df ! n) = h"
      using row len hpos by simp
    show "rows df ! n ! 0 = Str (hd padded)"
      using row by simp
    have cell: "rows df ! n ! j = ?g (padded ! j)" if "0 < j" "j < h" for j
    proof -
      from that obtain j' where j': "j = Suc j'" by (cases j) auto
      with that len have "j' < length (tl padded)" by simp
      with row j' have "rows df ! n ! j = ?g (tl padded ! j')" by simp
      also from that len j' have "tl padded ! j' = padded ! j" by (simp add: nth_tl)
      finally show ?thesis .
    qed
    {
      fix j assume j: "0 < j \<and> j < length cells"
      with short have "j < h" by simp
      with j cell [of j] pj [of j]
      show "rows df ! n ! j = to_numeric num (Str (cells ! j))" by simp
    }
    {
      fix j assume j: "length cells \<le> j \<and> j < h \<and> 0 < j"
      with cell [of j] pj [of j] show "rows df ! n ! j = Missing" by simp
    }
  }
qed

theorem padding_law_witness:
  "filter is_data_row (splitlines (strip_emphasis (''| a | b | c |'' @ [LF] @ ''| x | 7 |'')))
     = [''| a | b | c |'', ''| x | 7 |'']
   \<and> tokenize ''| a | b | c |'' = [''a'', ''b'', ''c'']
   \<and> tokenize ''| x | 7 |'' = [''x'', ''7'']
   \<and> pad_row 3 [''x'', ''7''] = [''x'', ''7'', []]
   \<and> parse_markdown_table decimal (''| a | b | c |'' @ [LF] @ ''| x | 7 |'')
     = Inr \<lparr>columns = [''a'', ''b'', ''c''], index = [0],
            rows = [[Str ''x'', Num 7, Missing]]\<rparr>
   \<and> length ([[Str ''x'', Num 7, Missing :: nat cell]] ! 0) = 3
   \<and> [[Str ''x'', Num 7, Missing :: nat cell]] ! 0 ! 1 = to_numeric decimal (Str ''7'')
   \<and> [[Str ''x'', Num 7, Missing :: nat cell]] ! 0 ! 2 = Missing"
proof -
  let ?text = "''| a | b | c |'' @ [LF] @ ''| x | 7 |''"
  let ?df = "\<lparr>columns = [''a'', ''b'', ''c''], index = [0],
             rows = [[Str ''x'', Num 7, Missing :: nat cell]]\<rparr>"
  have lines: "filter is_data_row (splitlines (strip_emphasis ?text))
                 = ''| a | b | c |'' # [''| x | 7 |'']"
    by code_simp
  have th: "tokenize ''| a | b | c |'' = [''a'', ''b'', ''c'']" by code_simp
  have tb: "tokenize ''| x | 7 |'' = [''x'', ''7'']" by code_simp
  have pad: "pad_row 3 [''x'', ''7''] = [''x'', ''7'', []]" by code_simp
  have run: "parse_markdown_table decimal ?text = Inr ?df" by code_simp
  have i: "(0::nat) < length [''| x | 7 |'']" by simp
  have h: "(3::nat) = length (tokenize ''| a | b | c |'')" by (simp only: th) simp
  have cells: "[''x'', ''7''] = tokenize ([''| x | 7 |''] ! 0)" by (simp add: tb)
  have short: "length [''x'', ''7''] < (3::nat)" by simp
  have padded: "[''x'', ''7'', []] = pad_row 3 [''x'', ''7'']" by (simp only: pad)
  have n: "(0::nat) = length (filter (\<lambda>row. \<not> search_nocase ''EXISTING LEVELS'' (hd row))
                          (take 0 (map (pad_row 3 \<circ> tokenize) [''| x | 7 |''])))"
    by simp
  have keep: "\<not> search_nocase ''EXISTING LEVELS'' (hd [''x'', ''7'', []])" by code_simp
  from padding_law [OF lines i h cells short padded n, of decimal] run keep
  have A: "length (rows ?df ! 0) = 3"
    and B: "\<forall>j. 0 < j \<and> j < length [''x'', ''7''] \<longrightarrow>
           rows ?df ! 0 ! j = to_numeric decimal (Str ([''x'', ''7''] ! j))"
    and C: "\<forall>j. length [''x'', ''7''] \<le> j \<and> j < 3 \<and> 0 < j \<longrightarrow> rows ?df ! 0 ! j = Missing"
    by blast+
  have b1: "rows ?df ! 0 ! 1 = to_numeric decimal (Str ([''x'', ''7''] ! 1))"
    by (rule B [rule_format]) simp
  have c2: "rows ?df ! 0 ! 2 = Missing"
    by (rule C [rule_format]) simp
  from A b1 c2 have "length ([[Str ''x'', Num 7, Missing :: nat cell]] ! 0) = 3"
    and "[[Str ''x'', Num 7, Missing :: nat cell]] ! 0 ! 1 = to_numeric decimal (Str ''7'')"
    and "[[Str ''x'', Num 7, Missing :: nat cell]] ! 0 ! 2 = Missing"
    by (simp_all del: to_numeric.simps)
  with lines th tb pad run show ?thesis by blast
qed

section \<open>Emphasis stripping\<close>




section \<open>Separator lines\<close>

text \<open>
  C6. The claim: the output for an input is the output for the same input with every
  separator line deleted. It fails where an emphasis wrapper runs over a separator
  line through a carriage return: in \<^verbatim>\<open>| **h |\r|---**|\r| 1 |\<close> the wrapper is stripped
  and the header is \<^verbatim>\<open>h\<close>, while without the second line nothing closes the marker
  and the header is \<^verbatim>\<open>**h\<close>. As amended: the output is the one built from the lines
  of the stripped text without its separator lines, wherever they stand; the flag
  \<^verbatim>\<open>is_table\<close> does not change \<^verbatim>\<open>table_data\<close>; and for an input whose only line
  boundaries are line feeds the output is that of the input with its separator lines
  deleted.
\<close>

theorem separator_lines_skipped:
  fixes num :: "string \<Rightarrow> 'n option"
  shows "parse_markdown_table num ocr_text
           = build_table num (collect_rows (filter (\<lambda>line. \<not> is_separator line)
                                              (splitlines (strip_emphasis ocr_text))))
         \<and> fst (scan_lines ls (table_data, True)) = fst (scan_lines ls (table_data, False))
         \<and> ((\<forall>c\<in>set ocr_text. is_linebreak c \<longrightarrow> c = LF) \<longrightarrow>
               parse_markdown_table num (delete_separator_lines ocr_text)
                 = parse_markdown_table num ocr_text)"
proof (intro conjI impI)
  show "parse_markdown_table num ocr_text
           = build_table num (collect_rows (filter (\<lambda>line. \<not> is_separator line)
                                              (splitlines (strip_emphasis ocr_text))))"
    by (simp only: parse_markdown_table_eq collect_rows_filter)
  show "fst (scan_lines ls (table_data, True)) = fst (scan_lines ls (table_data, False))"
    by (simp only: scan_lines_eq fst_conv)
  assume "\<forall>c\<in>set ocr_text. is_linebreak c \<longrightarrow> c = LF"
  from table_data_delete_separator_lines [OF this]
  show "parse_markdown_table num (delete_separator_lines ocr_text)
          = parse_markdown_table num ocr_text"
    by (simp only: parse_markdown_table_eq)
qed

theorem separator_lines_skipped_witness:
  "delete_separator_lines (''| h |'' @ [LF] @ ''|---|'' @ [LF] @ ''| 1 |'')
     = ''| h |'' @ [LF] @ ''| 1 |''
   \<and> parse_markdown_table decimal (''| h |'' @ [LF] @ ''| 1 |'')
     = parse_markdown_table decimal (''| h |'' @ [LF] @ ''|---|'' @ [LF] @ ''| 1 |'')
   \<and> parse_markdown_table decimal (''| h |'' @ [LF] @ ''|---|'' @ [LF] @ ''| 1 |'')
     = Inr \<lparr>columns = [''h''], index = [0], rows = [[Str ''1'']]\<rparr>"
proof -
  let ?t = "''| h |'' @ [LF] @ ''|---|'' @ [LF] @ ''| 1 |''"
  have lf: "\<forall>c\<in>set ?t. is_linebreak c \<longrightarrow> c = LF"
    by (simp add: is_linebreak_def)
  have d: "delete_separator_lines ?t = ''| h |'' @ [LF] @ ''| 1 |''"
    by code_simp
  have r: "parse_markdown_table decimal ?t
             = Inr \<lparr>columns = [''h''], index = [0], rows = [[Str ''1'']]\<rparr>"
    by code_simp
  from separator_lines_skipped [of decimal ?t] lf
  have "parse_markdown_table decimal (delete_separator_lines ?t)
          = parse_markdown_table decimal ?t"
    by blast
  then have "parse_markdown_table decimal (''| h |'' @ [LF] @ ''| 1 |'')
          = parse_markdown_table decimal ?t"
    by (simp only: d)
  with d r show ?thesis by blast
qed

theorem separator_deletion_counterexample:
  "delete_separator_lines (''| **h |'' @ [CR] @ ''|---**|'' @ [CR] @ ''| 1 |'')
     = ''| **h |'' @ [CR] @ ''| 1 |''
   \<and> parse_markdown_table decimal (''| **h |'' @ [CR] @ ''|---**|'' @ [CR] @ ''| 1 |'')
     = Inr \<lparr>columns = [''h''], index = [0], rows = [[Str ''1'']]\<rparr>
   \<and> parse_markdown_table decimal
         (delete_separator_lines (''| **h |'' @ [CR] @ ''|---**|'' @ [CR] @ ''| 1 |''))
     = Inr \<lparr>columns = [''**h''], index = [0], rows = [[Str ''1'']]\<rparr>"
  by code_simp

section \<open>Tokenization\<close>



section \<open>A header line without body\<close>

text \<open>
  C8. The claim: every input with exactly one data line gives a table whose headers
  are the cells of that line and which has no rows. The code breaks it on two kinds
  of input. The line \<^verbatim>\<open>|\<close> has no cells: the frame has no columns and the read of its
  first column raises \<^verbatim>\<open>IndexError\<close>. The line \<^verbatim>\<open>| Chainage | Level | Level |\<close> repeats a
  label: \<^verbatim>\<open>df["Level"]\<close> is then a frame of two columns, which \<^verbatim>\<open>pd.to_numeric\<close> refuses
  with \<^verbatim>\<open>TypeError\<close>. Where the one data line has at least one cell and no cell twice,
  the parser returns the table of the claim (\<open>single_header_line_distinct\<close>).
\<close>

theorem single_header_line_raises:
  "filter is_data_row (splitlines (strip_emphasis ''|'')) = [''|'']
   \<and> tokenize ''|'' = []
   \<and> parse_markdown_table decimal ''|'' = Inl IndexError
   \<and> filter is_data_row (splitlines (strip_emphasis ''| Chainage | Level | Level |''))
     = [''| Chainage | Level | Level |'']
   \<and> tokenize ''| Chainage | Level | Level |'' = [''Chainage'', ''Level'', ''Level'']
   \<and> parse_markdown_table decimal ''| Chainage | Level | Level |'' = Inl TypeError"
  by code_simp

section \<open>Numeric coercion\<close>

text \<open>
  C9. Numeric coercion is idempotent: where the coercion of a cell gives a number,
  coercing that number again gives the same number; and running the coercion loop
  again on the frame it returned returns that frame unchanged.
\<close>

theorem to_numeric_idempotent:
  "(to_numeric num c = Num x \<longrightarrow> to_numeric num (to_numeric num c) = Num x)
   \<and> (coerce_columns num cols df = Inr df' \<longrightarrow> coerce_columns num cols df' = Inr df')"
  using coerce_columns_again [of num cols df df'] by simp

theorem to_numeric_idempotent_witness:
  "to_numeric decimal (Str ''12'') = Num 12
   \<and> to_numeric decimal (to_numeric decimal (Str ''12'')) = Num 12
   \<and> coerce_columns decimal [''b'']
        \<lparr>columns = [''a'', ''b''], index = [0], rows = [[Str ''x'', Str ''12'']]\<rparr>
      = Inr \<lparr>columns = [''a'', ''b''], index = [0], rows = [[Str ''x'', Num 12]]\<rparr>
   \<and> coerce_columns decimal [''b'']
        \<lparr>columns = [''a'', ''b''], index = [0], rows = [[Str ''x'', Num 12]]\<rparr>
      = Inr \<lparr>columns = [''a'', ''b''], index = [0], rows = [[Str ''x'', Num 12]]\<rparr>"
proof -
  let ?df = "\<lparr>columns = [''a'', ''b''], index = [0], rows = [[Str ''x'', Str ''12'' :: nat cell]]\<rparr>"
  let ?df' = "\<lparr>columns = [''a'', ''b''], index = [0], rows = [[Str ''x'', Num 12 :: nat cell]]\<rparr>"
  have h: "to_numeric decimal (Str ''12'') = Num 12" by code_simp
  have r: "coerce_columns decimal [''b''] ?df = Inr ?df'" by code_simp
  from to_numeric_idempotent [of decimal "Str ''12''" 12 "[''b'']" ?df ?df'] h r
  have "to_numeric decimal (to_numeric decimal (Str ''12'')) = Num 12"
    and "coerce_columns decimal [''b''] ?df' = Inr ?df'"
    by blast+
  with h r show ?thesis by blast
qed

section \<open>Emphasis stripping and line breaks\<close>

text \<open>
  C10. The claim: an opening marker and the next closing marker on different lines
  are never matched. It fails where the lines are divided by a carriage return: the
  dot of the pattern excludes the line feed only, so \<^verbatim>\<open>**a\rb**\<close>, which
  \<^verbatim>\<open>splitlines\<close> divides into \<^verbatim>\<open>**a\<close> and \<^verbatim>\<open>b**\<close>, is stripped to \<^verbatim>\<open>a\rb\<close>. As amended, for
  the line feed: stripping a text is stripping what is before a line feed and what is
  after it separately, so no match crosses a line feed; and an opening and a closing
  marker with a line feed between them, in a text with no other star, both stay.
\<close>

theorem emphasis_never_crosses_line_feed:
  "strip_emphasis (x @ LF # y) = strip_emphasis x @ LF # strip_emphasis y
   \<and> (CHR ''*'' \<notin> set p \<and> CHR ''*'' \<notin> set a \<and> CHR ''*'' \<notin> set b \<and> CHR ''*'' \<notin> set q \<longrightarrow>
        strip_emphasis (p @ ''**'' @ a @ LF # b @ ''**'' @ q)
          = p @ ''**'' @ a @ LF # b @ ''**'' @ q)"
proof (intro conjI impI)
  show "strip_emphasis (x @ LF # y) = strip_emphasis x @ LF # strip_emphasis y"
    by (rule strip_emphasis_LF)
next
  assume ns: "CHR ''*'' \<notin> set p \<and> CHR ''*'' \<notin> set a \<and> CHR ''*'' \<notin> set b \<and> CHR ''*'' \<notin> set q"
  have one: "strip_emphasis (u @ ''**'' @ v) = u @ ''**'' @ v"
    if "CHR ''*'' \<notin> set u" "CHR ''*'' \<notin> set v" for u v
    using strip_emphasis_plain_prefix [OF no_star_plain [OF that(1)], of "''**'' @ v"]
      strip_emphasis_lone_marker [OF that(2)]
    by (simp only:)
  have "strip_emphasis ((p @ ''**'' @ a) @ LF # (b @ ''**'' @ q))
          = strip_emphasis (p @ ''**'' @ a) @ LF # strip_emphasis (b @ ''**'' @ q)"
    by (rule strip_emphasis_LF)
  also have "\<dots> = (p @ ''**'' @ a) @ LF # (b @ ''**'' @ q)"
  proof -
    from ns have "strip_emphasis (p @ ''**'' @ a) = p @ ''**'' @ a" by (intro one) simp_all
    moreover from ns have "strip_emphasis (b @ ''**'' @ q) = b @ ''**'' @ q"
      by (intro one) simp_all
    ultimately show ?thesis by (simp only:)
  qed
  finally show "strip_emphasis (p @ ''**'' @ a @ LF # b @ ''**'' @ q)
          = p @ ''**'' @ a @ LF # b @ ''**'' @ q"
    by simp
qed

theorem emphasis_never_crosses_line_feed_witness:
  "strip_emphasis (''x **a'' @ [LF] @ ''b** y'') = ''x **a'' @ [LF] @ ''b** y''"
proof -
  have "CHR ''*'' \<notin> set ''x '' \<and> CHR ''*'' \<notin> set ''a'' \<and> CHR ''*'' \<notin> set ''b''
        \<and> CHR ''*'' \<notin> set '' y''"
    by simp
  with emphasis_never_crosses_line_feed [of _ _ "''x ''" "''a''" "''b''" "'' y''"]
  have "strip_emphasis (''x '' @ ''**'' @ ''a'' @ LF # ''b'' @ ''**'' @ '' y'')
          = ''x '' @ ''**'' @ ''a'' @ LF # ''b'' @ ''**'' @ '' y''"
    by blast
  then show ?thesis by simp
qed

theorem emphasis_crosses_carriage_return:
  "splitlines (''**a'' @ [CR] @ ''b**'') = [''**a'', ''b**'']
   \<and> strip_emphasis (''**a'' @ [CR] @ ''b**'') = ''a'' @ [CR] @ ''b''"
  by code_simp

end
